theory Spec2Isabelle
  imports Complex_Main "HOL-Library.Sublist" "HOL-Library.Log_Nat"
begin

unbundle bit_operations_syntax

section \<open>Outline extraction from styled text lines\<close>

text \<open>
  A shallow embedding of the class \<open>PDFOutlineExtractor\<close> of \<^verbatim>\<open>src/read_pdf.py\<close>.

  Conventions of the model.
  \<^item> A Python \<open>str\<close> is a \<open>string\<close>; a \<open>char\<close> stands for the code point of the same
    number (0 to 255), so \<open>len\<close> is \<open>length\<close>. The character classes below are the ones
    Python uses on that range.
  \<^item> Font sizes and page coordinates are finite Python floats in the source; here they are
    the rational numbers that those floats stand for, so the comparisons of the source are
    comparisons of exact values. Where the source multiplies two floats (the two margins),
    the model rounds the exact product as binary64 arithmetic does.
  \<^item> PyMuPDF is not part of the repository: a document is the list of its pages, a page
    carries its height and what \<open>get_text("dict")\<close> gives for it (which may raise), and
    the file system says for each path whether the file is missing, cannot be opened or
    opens as a document.
  \<^item> Every \<open>raise\<close> of the source is a value \<open>Inl e\<close>; a \<open>try/except\<close> is a case
    distinction on it.
\<close>

subsection \<open>Characters and string helpers\<close>

text \<open>Whitespace as \<open>str.strip()\<close> and the class \<open>\s\<close> of \<open>re\<close> see it on code points below 256.\<close>

definition is_space :: "char \<Rightarrow> bool" where
  "is_space c = (c \<in> set [CHR 0x09, CHR 0x0A, CHR 0x0B, CHR 0x0C, CHR 0x0D,
      CHR 0x1C, CHR 0x1D, CHR 0x1E, CHR 0x1F, CHR '' '', CHR 0x85, CHR 0xA0])"

text \<open>The class \<open>\d\<close>: the decimal digits (the only ones below code point 256).\<close>

definition is_digit :: "char \<Rightarrow> bool" where
  "is_digit c = (c \<in> set ''0123456789'')"

text \<open>The classes \<open>[A-Z]\<close>, \<open>[a-z]\<close> and \<open>[IVXLCDM]\<close>.\<close>

definition is_upper_az :: "char \<Rightarrow> bool" where
  "is_upper_az c = (c \<in> set ''ABCDEFGHIJKLMNOPQRSTUVWXYZ'')"

definition is_lower_az :: "char \<Rightarrow> bool" where
  "is_lower_az c = (c \<in> set ''abcdefghijklmnopqrstuvwxyz'')"

definition is_roman :: "char \<Rightarrow> bool" where
  "is_roman c = (c \<in> set ''IVXLCDM'')"

text \<open>\<open>str.lower()\<close>, character by character: A to Z and the capital letters of Latin-1.\<close>

definition lower_char :: "char \<Rightarrow> char" where
  "lower_char c =
     (let n = (of_char c :: nat)
      in if (65 \<le> n \<and> n \<le> 90) \<or> (192 \<le> n \<and> n \<le> 222 \<and> n \<noteq> 215)
         then char_of (n + 32) else c)"

definition lower :: "string \<Rightarrow> string" where
  "lower s = map lower_char s"

text \<open>\<open>str.strip()\<close> with no argument.\<close>

definition strip :: "string \<Rightarrow> string" where
  "strip s = rev (dropWhile is_space (rev (dropWhile is_space s)))"

text \<open>\<open>sep.join(parts)\<close>.\<close>

fun join :: "string \<Rightarrow> string list \<Rightarrow> string" where
  "join sep [] = []"
| "join sep [x] = x"
| "join sep (x # y # ys) = x @ sep @ join sep (y # ys)"

text \<open>\<open>s.split(c)\<close> for a separator of one character: never the empty list.\<close>

fun split_on :: "char \<Rightarrow> string \<Rightarrow> string list" where
  "split_on c [] = [[]]"
| "split_on c (x # xs) =
     (if x = c then [] # split_on c xs
      else (let r = split_on c xs in (x # hd r) # tl r))"

text \<open>\<open>re.sub(r'\s+', ' ', s)\<close>: every maximal run of whitespace becomes one space.\<close>

function collapse_ws :: "string \<Rightarrow> string" where
  "collapse_ws [] = []"
| "collapse_ws (c # cs) =
     (if is_space c then CHR '' '' # collapse_ws (dropWhile is_space cs)
      else c # collapse_ws cs)"
  by pat_completeness auto
termination
  by (relation "measure length") (auto simp: length_dropWhile_le less_Suc_eq_le)

subsection \<open>Regular expressions\<close>

text \<open>
  The patterns of the source use character classes, concatenation, alternation and the
  repetitions \<open>*\<close>, \<open>+\<close> and \<open>{3,}\<close>, with \<open>$\<close> only at the very end. None has a
  back-reference or a look-around, so whether \<open>re\<close> finds a match is a question about
  the regular language, decided here with derivatives.
\<close>

datatype rx = Fail | Eps | Cls "char \<Rightarrow> bool" | Or rx rx | Then rx rx | Rep rx

fun nullable :: "rx \<Rightarrow> bool" where
  "nullable Fail = False"
| "nullable Eps = True"
| "nullable (Cls P) = False"
| "nullable (Or r s) = (nullable r \<or> nullable s)"
| "nullable (Then r s) = (nullable r \<and> nullable s)"
| "nullable (Rep r) = True"

fun deriv :: "char \<Rightarrow> rx \<Rightarrow> rx" where
  "deriv c Fail = Fail"
| "deriv c Eps = Fail"
| "deriv c (Cls P) = (if P c then Eps else Fail)"
| "deriv c (Or r s) = Or (deriv c r) (deriv c s)"
| "deriv c (Then r s) =
     (if nullable r then Or (Then (deriv c r) s) (deriv c s) else Then (deriv c r) s)"
| "deriv c (Rep r) = Then (deriv c r) (Rep r)"

text \<open>The whole string is in the language.\<close>

fun accepts :: "rx \<Rightarrow> string \<Rightarrow> bool" where
  "accepts r [] = nullable r"
| "accepts r (c # cs) = accepts (deriv c r) cs"

text \<open>Some prefix of the string is in the language.\<close>

fun accepts_prefix :: "rx \<Rightarrow> string \<Rightarrow> bool" where
  "accepts_prefix r [] = nullable r"
| "accepts_prefix r (c # cs) = (nullable r \<or> accepts_prefix (deriv c r) cs)"

definition rx_plus :: "rx \<Rightarrow> rx" where
  "rx_plus r = Then r (Rep r)"

definition at_least3 :: "rx \<Rightarrow> rx" where
  "at_least3 r = Then r (Then r (Then r (Rep r)))"

fun lit :: "string \<Rightarrow> rx" where
  "lit [] = Eps"
| "lit (c # cs) = Then (Cls (\<lambda>x. x = c)) (lit cs)"

text \<open>\<open>.\<close> matches every character but the newline.\<close>

definition dot_any :: rx where
  "dot_any = Cls (\<lambda>c. c \<noteq> CHR 0x0A)"

text \<open>
  \<open>$\<close> at the end of a pattern matches at the end of the string and just before a newline
  that ends the string.
\<close>

definition dollar :: rx where
  "dollar = Or Eps (Cls (\<lambda>c. c = CHR 0x0A))"

text \<open>A pattern is a regular expression, closed by \<open>$\<close> or not.\<close>

datatype pat = Pat rx | PatEnd rx

text \<open>\<open>re.match(p, s)\<close> is not None (the leading \<open>^\<close> of the patterns changes nothing).\<close>

fun re_match :: "pat \<Rightarrow> string \<Rightarrow> bool" where
  "re_match (Pat r) s = accepts_prefix r s"
| "re_match (PatEnd r) s = accepts (Then r dollar) s"

text \<open>\<open>re.search(p, s)\<close> is not None: a match starting at some position.\<close>

fun re_search :: "pat \<Rightarrow> string \<Rightarrow> bool" where
  "re_search p [] = re_match p []"
| "re_search p (c # cs) = (re_match p (c # cs) \<or> re_search p cs)"

text \<open>\<open>re.fullmatch(r, s)\<close> is not None, for a pattern without \<open>$\<close>.\<close>

definition re_fullmatch :: "rx \<Rightarrow> string \<Rightarrow> bool" where
  "re_fullmatch r s = accepts r s"

subsection \<open>The patterns of the source\<close>

text \<open>\<open>\d+(\.\d+)*\<close>\<close>

definition dotted_number :: rx where
  "dotted_number =
     Then (rx_plus (Cls is_digit)) (Rep (Then (Cls (\<lambda>c. c = CHR ''.'')) (rx_plus (Cls is_digit))))"

text \<open>
  \<open>self.heading_patterns\<close>, in the order of the source:
  \<^enum> \<^verbatim>\<open>^\d+(\.\d+)*\s+.*\<close>
  \<^enum> \<^verbatim>\<open>^(Chapter|Section)\s+([A-Z]|\d+)\s+.*\<close>
  \<^enum> \<^verbatim>\<open>^[A-Z\s]{3,}$\<close>
  \<^enum> \<^verbatim>\<open>^([A-Z][a-z]+)(\s[A-Z][a-z]+)+$\<close>
  \<^enum> \<^verbatim>\<open>^[IVXLCDM]+\.\s+.+\<close>
\<close>

definition heading_patterns :: "pat list" where
  "heading_patterns =
     [ Pat (Then dotted_number (Then (rx_plus (Cls is_space)) (Rep dot_any))),
       Pat (Then (Or (lit ''Chapter'') (lit ''Section''))
             (Then (rx_plus (Cls is_space))
               (Then (Or (Cls is_upper_az) (rx_plus (Cls is_digit)))
                 (Then (rx_plus (Cls is_space)) (Rep dot_any))))),
       PatEnd (at_least3 (Cls (\<lambda>c. is_upper_az c \<or> is_space c))),
       PatEnd (Then (Then (Cls is_upper_az) (rx_plus (Cls is_lower_az)))
                (rx_plus (Then (Cls is_space) (Then (Cls is_upper_az) (rx_plus (Cls is_lower_az)))))),
       Pat (Then (rx_plus (Cls is_roman))
             (Then (Cls (\<lambda>c. c = CHR ''.''))
               (Then (rx_plus (Cls is_space)) (rx_plus dot_any)))) ]"

definition explicit_headings :: "string set" where
  "explicit_headings =
     {''acknowledgements'', ''revision history'', ''table of contents'',
      ''references'', ''trademarks'', ''introduction'', ''overview''}"

text \<open>\<open>\s\.{3,}\s*\d+$\<close>, the shape of a table-of-contents entry.\<close>

definition dot_leader :: pat where
  "dot_leader =
     PatEnd (Then (Cls is_space)
              (Then (at_least3 (Cls (\<lambda>c. c = CHR ''.'')))
                (Then (Rep (Cls is_space)) (rx_plus (Cls is_digit)))))"

text \<open>
  \<open>re.match(r'^(\d+(\.\d+)*)', text)\<close> and its \<open>group(1)\<close>. Each repetition is greedy and
  no shorter choice can let the rest of the pattern match, so the group is found by
  scanning: all the digits, then, as long as a dot is followed by a digit, the dot and all
  the digits after it. \<open>None\<close> is the \<open>None\<close> of \<open>re.match\<close>. The lemmas
  \<open>numeric_prefix_match\<close>, \<open>numeric_prefix_lang\<close> and \<open>numeric_prefix_longest\<close> below
  relate the scan to the pattern: it succeeds exactly when the pattern matches, and its
  result is the longest prefix of the text in the language of the pattern.
\<close>

function dotted_groups :: "string \<Rightarrow> string" where
  "dotted_groups [] = []"
| "dotted_groups (c # cs) =
     (if c = CHR ''.'' \<and> takeWhile is_digit cs \<noteq> []
      then c # takeWhile is_digit cs @ dotted_groups (dropWhile is_digit cs)
      else [])"
  by pat_completeness auto
termination
  by (relation "measure length") (auto simp: length_dropWhile_le less_Suc_eq_le)

definition numeric_prefix :: "string \<Rightarrow> string option" where
  "numeric_prefix s =
     (if takeWhile is_digit s = [] then None
      else Some (takeWhile is_digit s @ dotted_groups (dropWhile is_digit s)))"

subsection \<open>Data model\<close>

text \<open>
  What PyMuPDF hands over: a span with its text, font, size and flags; a line with its spans
  and its bounding box \<open>(x0, y0, x1, y1)\<close>; a block, which has the key \<open>"lines"\<close> or not;
  a page with the height of its rectangle and its blocks, or the exception that reading it
  raises.
\<close>

datatype error = ValueError | IndexError | FitzError

record span =
  s_text :: string
  s_font :: string
  s_size :: rat
  s_flags :: int

record raw_line =
  r_spans :: "span list"
  r_bbox :: "rat \<times> rat \<times> rat \<times> rat"

datatype block = Lines "raw_line list" | NoLines

record pdf_page =
  p_height :: rat
  p_blocks :: "error + block list"

type_synonym document = "pdf_page list"

text \<open>
  A path names no file (\<open>os.path.exists\<close> is false), a file that \<open>fitz.open\<close> rejects
  with an exception, or a document.
\<close>

datatype file_state = Missing | Broken | Pdf document

type_synonym file_system = "string \<Rightarrow> file_state"

text \<open>The dictionary that \<open>extract_text_lines\<close> appends for a line it keeps.\<close>

record text_line =
  l_text :: string
  l_font :: string
  l_size :: rat
  l_flags :: int
  l_bbox :: "rat \<times> rat \<times> rat \<times> rat"
  l_page :: nat

datatype level = H1 | H2 | H3

record entry =
  e_level :: level
  e_text :: string
  e_page :: nat

record document_result =
  title :: string
  outline :: "entry list"

subsection \<open>Counters\<close>

text \<open>
  A \<open>defaultdict(int)\<close> or \<open>Counter\<close> is the list of its items in insertion order, which is
  the order in which Python iterates over it. \<open>bump\<close> is \<open>d[k] += 1\<close>.
\<close>

fun bump :: "'k \<Rightarrow> ('k \<times> nat) list \<Rightarrow> ('k \<times> nat) list" where
  "bump k [] = [(k, 1)]"
| "bump k ((k', n) # d) = (if k = k' then (k', n + 1) # d else (k', n) # bump k d)"

definition counter :: "'k list \<Rightarrow> ('k \<times> nat) list" where
  "counter xs = fold bump xs []"

text \<open>
  \<open>c.most_common(1)\<close>: \<open>heapq.nlargest(1, ...)\<close> is \<open>max\<close> with the count as key, which
  keeps the first item of the largest count; the result is a list of at most one item.
\<close>

fun most_common1 :: "('k \<times> nat) list \<Rightarrow> ('k \<times> nat) list" where
  "most_common1 [] = []"
| "most_common1 (x # xs) = [fold (\<lambda>y m. if snd m < snd y then y else m) xs x]"

text \<open>\<open>xs[0]\<close>, \<open>xs[-1]\<close> and \<open>max(xs)\<close>, which raise on the empty list.\<close>

fun py_first :: "'a list \<Rightarrow> error + 'a" where
  "py_first [] = Inl IndexError"
| "py_first (x # xs) = Inr x"

fun py_last :: "'a list \<Rightarrow> error + 'a" where
  "py_last [] = Inl IndexError"
| "py_last (x # xs) = Inr (last (x # xs))"

fun py_max :: "rat list \<Rightarrow> error + rat" where
  "py_max [] = Inl ValueError"
| "py_max (x # xs) = Inr (fold (\<lambda>y m. if m < y then y else m) xs x)"

text \<open>\<open>xs.index(x)\<close>: the first position of \<open>x\<close>, \<open>None\<close> for the \<open>ValueError\<close>.\<close>

fun py_index :: "'a list \<Rightarrow> 'a \<Rightarrow> nat option" where
  "py_index [] x = None"
| "py_index (y # ys) x =
     (if y = x then Some 0 else (case py_index ys x of None \<Rightarrow> None | Some i \<Rightarrow> Some (Suc i)))"

text \<open>\<open>sorted(xs, reverse=True)\<close>: stable, descending.\<close>

definition sorted_desc :: "rat list \<Rightarrow> rat list" where
  "sorted_desc xs = sort_key (\<lambda>x. - x) xs"

text \<open>\<open>round(x, 1)\<close> on the exact value: to the nearest tenth, a tie to the even one.\<close>

definition round1 :: "rat \<Rightarrow> rat" where
  "round1 x =
     (let y = x * 10; f = \<lfloor>y\<rfloor>; d = y - of_int f;
          n = (if d < 1 / 2 then f else if 1 / 2 < d then f + 1
               else if even f then f else f + 1)
      in of_int n / 10)"

subsection \<open>Floating-point products\<close>

text \<open>
  \<open>a * b\<close> on Python floats is the exact product rounded to the nearest binary64 number,
  a tie going to the even significand. \<open>float_round\<close> is that rounding: a significand of
  53 bits, and below \<open>2 ^ - 1022\<close> the fixed step \<open>2 ^ - 1074\<close>. It leaves out the overflow
  to infinity, which the products of the source cannot reach: their second factor is below 1.
\<close>

definition pow2 :: "int \<Rightarrow> rat" where
  "pow2 k = (if 0 \<le> k then 2 ^ nat k else 1 / 2 ^ nat (- k))"

text \<open>
  The integer \<open>k\<close> with \<open>2 ^ k \<le> x < 2 ^ (k + 1)\<close>, for \<open>x > 0\<close>: the difference of the bit
  lengths of numerator and denominator, or one less.
\<close>

definition floor_log2 :: "rat \<Rightarrow> int" where
  "floor_log2 x =
     (let k = bitlen (fst (quotient_of x)) - bitlen (snd (quotient_of x))
      in if pow2 k \<le> x then k else k - 1)"

definition round_half_even :: "rat \<Rightarrow> int" where
  "round_half_even y =
     (let f = \<lfloor>y\<rfloor>; d = y - of_int f
      in if d < 1 / 2 then f else if 1 / 2 < d then f + 1
         else if even f then f else f + 1)"

definition float_round :: "rat \<Rightarrow> rat" where
  "float_round x =
     (if x = 0 then 0
      else (let a = \<bar>x\<bar>;
                e = max (floor_log2 a - 52) (- 1074);
                m = round_half_even (a / pow2 e)
            in sgn x * of_int m * pow2 e))"

definition float_mul :: "rat \<Rightarrow> rat \<Rightarrow> rat" where
  "float_mul a b = float_round (a * b)"

text \<open>
  The literals \<open>0.15\<close> and \<open>0.85\<close>: the binary64 numbers \<open>0x1.3333333333333p-3\<close> and
  \<open>0x1.b333333333333p-1\<close>.
\<close>

definition float_0_15 :: rat where
  "float_0_15 = 5404319552844595 / 2 ^ 55"

definition float_0_85 :: rat where
  "float_0_85 = 7656119366529843 / 2 ^ 53"

subsection \<open>Header and footer detection\<close>

text \<open>
  The text of a line as both scans compute it:
  \<^verbatim>\<open>" ".join(s["text"].strip() for s in line["spans"] if s["text"].strip()).strip()\<close>
\<close>

definition line_text_of :: "raw_line \<Rightarrow> string" where
  "line_text_of line =
     strip (join '' '' (filter (\<lambda>t. t \<noteq> []) (map (\<lambda>s. strip (s_text s)) (r_spans line))))"

text \<open>The body of the innermost loop of \<open>_identify_headers_and_footers\<close>.\<close>

definition count_line ::
  "rat \<Rightarrow> rat \<Rightarrow> raw_line \<Rightarrow> (string \<times> nat) list \<times> (string \<times> nat) list \<Rightarrow>
   (string \<times> nat) list \<times> (string \<times> nat) list" where
  "count_line header_margin footer_margin line cands =
     (let line_text = line_text_of line
      in if line_text = [] \<or> length line_text < 4 then cands
         else (let y1 = fst (snd (r_bbox line))
               in if y1 < header_margin then (bump line_text (fst cands), snd cands)
                  else if footer_margin < y1 then (fst cands, bump line_text (snd cands))
                  else cands))"

definition count_block ::
  "rat \<Rightarrow> rat \<Rightarrow> block \<Rightarrow> (string \<times> nat) list \<times> (string \<times> nat) list \<Rightarrow>
   (string \<times> nat) list \<times> (string \<times> nat) list" where
  "count_block header_margin footer_margin b cands =
     (case b of
        Lines ls \<Rightarrow> fold (count_line header_margin footer_margin) ls cands
      | NoLines \<Rightarrow> cands)"

text \<open>The loop over the pages; reading a page may raise.\<close>

fun count_pages ::
  "rat \<Rightarrow> rat \<Rightarrow> pdf_page list \<Rightarrow> (string \<times> nat) list \<times> (string \<times> nat) list \<Rightarrow>
   error + ((string \<times> nat) list \<times> (string \<times> nat) list)" where
  "count_pages header_margin footer_margin [] cands = Inr cands"
| "count_pages header_margin footer_margin (p # ps) cands =
     (case p_blocks p of
        Inl e \<Rightarrow> Inl e
      | Inr blocks \<Rightarrow>
          count_pages header_margin footer_margin ps
            (fold (count_block header_margin footer_margin) blocks cands))"

definition threshold :: "nat \<Rightarrow> nat" where
  "threshold page_count = (if 2 < page_count then max (page_count div 2) 2 else 1)"

text \<open>The two loops that fill \<open>common_texts\<close> from the items of a dictionary.\<close>

definition add_common :: "nat \<Rightarrow> (string \<times> nat) list \<Rightarrow> string set \<Rightarrow> string set" where
  "add_common thr items common_texts =
     fold (\<lambda>(text, count) acc. if thr \<le> count then insert text acc else acc) items common_texts"

text \<open>\<open>_identify_headers_and_footers(doc)\<close>\<close>

definition identify_headers_and_footers :: "document \<Rightarrow> error + string set" where
  "identify_headers_and_footers doc =
     (case doc of
        [] \<Rightarrow> Inr {}
      | first_page # _ \<Rightarrow>
          (let page_height = p_height first_page;
               header_margin = float_mul page_height float_0_15;
               footer_margin = float_mul page_height float_0_85
           in case count_pages header_margin footer_margin doc ([], []) of
                Inl e \<Rightarrow> Inl e
              | Inr (header_candidates, footer_candidates) \<Rightarrow>
                  Inr (add_common (threshold (length doc)) footer_candidates
                        (add_common (threshold (length doc)) header_candidates {}))))"

subsection \<open>Line extraction\<close>

text \<open>The body of the innermost loop of \<open>extract_text_lines\<close>.\<close>

definition keep_line :: "string set \<Rightarrow> nat \<Rightarrow> raw_line \<Rightarrow> text_line list \<Rightarrow> text_line list" where
  "keep_line headers_and_footers page_num line all_lines =
     (case r_spans line of
        [] \<Rightarrow> all_lines
      | first_span # _ \<Rightarrow>
          (let line_text = line_text_of line
           in if line_text = [] then all_lines
              else if line_text \<in> headers_and_footers then all_lines
              else if re_search dot_leader line_text then all_lines
              else all_lines @
                [\<lparr>l_text = line_text, l_font = s_font first_span,
                  l_size = round1 (s_size first_span), l_flags = s_flags first_span,
                  l_bbox = r_bbox line, l_page = page_num + 1\<rparr>]))"

definition keep_block :: "string set \<Rightarrow> nat \<Rightarrow> block \<Rightarrow> text_line list \<Rightarrow> text_line list" where
  "keep_block headers_and_footers page_num b all_lines =
     (case b of
        Lines ls \<Rightarrow> fold (keep_line headers_and_footers page_num) ls all_lines
      | NoLines \<Rightarrow> all_lines)"

text \<open>\<open>for page_num, page in enumerate(doc)\<close>\<close>

fun keep_pages ::
  "string set \<Rightarrow> nat \<Rightarrow> pdf_page list \<Rightarrow> text_line list \<Rightarrow> error + text_line list" where
  "keep_pages headers_and_footers page_num [] all_lines = Inr all_lines"
| "keep_pages headers_and_footers page_num (p # ps) all_lines =
     (case p_blocks p of
        Inl e \<Rightarrow> Inl e
      | Inr blocks \<Rightarrow>
          keep_pages headers_and_footers (page_num + 1) ps
            (fold (keep_block headers_and_footers page_num) blocks all_lines))"

text \<open>The body of the \<open>try\<close> of \<open>extract_text_lines\<close>.\<close>

definition extract_text_lines_try :: "file_system \<Rightarrow> string \<Rightarrow> error + text_line list" where
  "extract_text_lines_try fs pdf_path =
     (case fs pdf_path of
        Missing \<Rightarrow> Inr []
      | Broken \<Rightarrow> Inl FitzError
      | Pdf doc \<Rightarrow>
          if length doc = 0 then Inr []
          else (case identify_headers_and_footers doc of
                  Inl e \<Rightarrow> Inl e
                | Inr headers_and_footers \<Rightarrow> keep_pages headers_and_footers 0 doc []))"

text \<open>\<open>extract_text_lines(pdf_path)\<close>: \<open>except Exception\<close> returns the empty list.\<close>

definition extract_text_lines :: "file_system \<Rightarrow> string \<Rightarrow> text_line list" where
  "extract_text_lines fs pdf_path =
     (case extract_text_lines_try fs pdf_path of Inl e \<Rightarrow> [] | Inr all_lines \<Rightarrow> all_lines)"

subsection \<open>Title\<close>

text \<open>
  Lines 178 to 186 of \<open>extract_title\<close>, which run on the lines of the first page or, when
  it has none, on those of the second.
\<close>

definition title_of_lines :: "text_line list \<Rightarrow> error + string" where
  "title_of_lines first_page_lines =
     (case py_max (map l_size first_page_lines) of
        Inl e \<Rightarrow> Inl e
      | Inr max_size \<Rightarrow>
          (let title_candidates =
                 map l_text (filter (\<lambda>line. l_size line = max_size) first_page_lines);
               title = strip (join '' '' title_candidates);
               title = collapse_ws title;
               title = (if 150 < length title then take 147 title @ ''...'' else title)
           in Inr (if title \<noteq> [] then title else ''Untitled Document'')))"

definition extract_title :: "text_line list \<Rightarrow> error + string" where
  "extract_title text_lines =
     (if text_lines = [] then Inr ''Untitled Document''
      else (let first_page_lines = take 30 (filter (\<lambda>line. l_page line = 1) text_lines)
            in if first_page_lines = []
               then (let first_page_lines = take 30 (filter (\<lambda>line. l_page line = 2) text_lines)
                     in if first_page_lines = [] then Inr ''Untitled Document''
                        else title_of_lines first_page_lines)
               else title_of_lines first_page_lines))"

subsection \<open>Font sizes\<close>

definition analyze_font_styles :: "text_line list \<Rightarrow> error + (rat \<times> rat list)" where
  "analyze_font_styles text_lines =
     (if text_lines = [] then Inr (10, [])
      else (let size_frequency = counter (map l_size text_lines)
            in case (if size_frequency \<noteq> []
                     then (case py_first (most_common1 size_frequency) of
                             Inl e \<Rightarrow> Inl e
                           | Inr item \<Rightarrow> Inr (fst item))
                     else Inr 10) of
                 Inl e \<Rightarrow> Inl e
               | Inr body_size \<Rightarrow>
                   Inr (body_size,
                        sorted_desc (filter (\<lambda>size. body_size < size) (map fst size_frequency)))))"

text \<open>
  Lines 293 to 298 of \<open>extract_outline\<close>: the sizes when no heading size was found. The
  order in which \<open>list(set(...))\<close> lists the distinct sizes is lost in the sort that follows.
\<close>

definition fallback_sizes :: "text_line list \<Rightarrow> rat \<times> rat list \<Rightarrow> error + (rat \<times> rat list)" where
  "fallback_sizes text_lines sizes =
     (if snd sizes = []
      then (let unique_sizes = sorted_desc (remdups (map l_size text_lines))
            in if 1 < length unique_sizes
               then (case py_last unique_sizes of
                       Inl e \<Rightarrow> Inl e
                     | Inr body_size \<Rightarrow>
                         Inr (body_size, filter (\<lambda>s. body_size < s) unique_sizes))
               else Inr sizes)
      else Inr sizes)"

subsection \<open>Heading test and heading level\<close>

definition is_likely_heading :: "text_line \<Rightarrow> bool" where
  "is_likely_heading line =
     (let text = l_text line
      in if length text < 3 \<or> 200 < length text then False
         else if re_fullmatch (rx_plus (Cls is_digit)) text then False
         else if strip (lower text) \<in> explicit_headings then True
         else if list_ex (\<lambda>pattern. re_match pattern text) heading_patterns then True
         else if l_flags line AND 16 \<noteq> 0 then True
         else False)"

definition classify_heading_level :: "text_line \<Rightarrow> rat list \<Rightarrow> level" where
  "classify_heading_level line heading_sizes =
     (let font_size = l_size line;
          text = l_text line;
          level = (case py_index heading_sizes font_size of
                     None \<Rightarrow> H3
                   | Some level_index \<Rightarrow>
                       if level_index = 0 then H1 else if level_index = 1 then H2 else H3)
      in case numeric_prefix text of
           None \<Rightarrow> level
         | Some group1 \<Rightarrow>
             (let num_parts = split_on (CHR ''.'') group1
              in if length num_parts = 1 then H1
                 else if length num_parts = 2 then H2
                 else H3))"

subsection \<open>Outline\<close>

text \<open>
  The loop of \<open>extract_outline\<close> over the cleaned lines, with the list \<open>outline\<close> and the
  set \<open>seen_headings\<close> it updates (\<open>title0\<close> and \<open>outline0\<close> are the variables \<open>title\<close>
  and \<open>outline\<close> of the source).
\<close>

fun collect_headings ::
  "string \<Rightarrow> rat \<Rightarrow> rat list \<Rightarrow> text_line list \<Rightarrow> entry list \<Rightarrow> (string \<times> nat) set \<Rightarrow>
   entry list" where
  "collect_headings title0 body_size heading_sizes [] outline0 seen_headings = outline0"
| "collect_headings title0 body_size heading_sizes (line # rest) outline0 seen_headings =
     (if l_size line \<le> body_size
      then collect_headings title0 body_size heading_sizes rest outline0 seen_headings
      else if is_likely_heading line
      then (let heading_text = l_text line; page_num = l_page line
            in if strip heading_text = strip title0 \<and> page_num \<le> 2
               then collect_headings title0 body_size heading_sizes rest outline0 seen_headings
               else if (lower heading_text, page_num) \<in> seen_headings
               then collect_headings title0 body_size heading_sizes rest outline0 seen_headings
               else collect_headings title0 body_size heading_sizes rest
                      (outline0 @
                        [\<lparr>e_level = classify_heading_level line heading_sizes,
                          e_text = heading_text, e_page = page_num\<rparr>])
                      (insert (lower heading_text, page_num) seen_headings))
      else collect_headings title0 body_size heading_sizes rest outline0 seen_headings)"

definition error_result :: document_result where
  "error_result = \<lparr>title = ''Error: Could Not Process Document'', outline = []\<rparr>"

definition extract_outline :: "file_system \<Rightarrow> string \<Rightarrow> error + document_result" where
  "extract_outline fs pdf_path =
     (let text_lines = extract_text_lines fs pdf_path
      in if text_lines = [] then Inr error_result
         else (case extract_title text_lines of
                 Inl e \<Rightarrow> Inl e
               | Inr title0 \<Rightarrow>
                   (case analyze_font_styles text_lines of
                      Inl e \<Rightarrow> Inl e
                    | Inr sizes \<Rightarrow>
                        (case fallback_sizes text_lines sizes of
                           Inl e \<Rightarrow> Inl e
                         | Inr (body_size, heading_sizes) \<Rightarrow>
                             Inr \<lparr>title = title0,
                                  outline = sort_key e_page
                                    (collect_headings title0 body_size heading_sizes
                                       text_lines [] {})\<rparr>))))"

section \<open>Vocabulary of the properties\<close>

text \<open>
  Names for what the properties below speak about. None of them is part of the program.
\<close>

text \<open>The entry that the loop of \<open>extract_outline\<close> appends for a line.\<close>

definition mk_entry :: "rat list \<Rightarrow> text_line \<Rightarrow> entry" where
  "mk_entry heading_sizes line =
     \<lparr>e_level = classify_heading_level line heading_sizes, e_text = l_text line, e_page = l_page line\<rparr>"

text \<open>The key \<open>heading_key\<close> of a line, and the same key read off an entry.\<close>

definition line_key :: "text_line \<Rightarrow> string \<times> nat" where
  "line_key line = (lower (l_text line), l_page line)"

definition entry_key :: "entry \<Rightarrow> string \<times> nat" where
  "entry_key e = (lower (e_text e), e_page e)"

text \<open>
  A line passes the size filter, the heading test and the title filter for the title \<open>t\<close>
  and the body size \<open>b\<close>.
\<close>

definition qualifies :: "string \<Rightarrow> rat \<Rightarrow> text_line \<Rightarrow> bool" where
  "qualifies t b line =
     (b < l_size line \<and> is_likely_heading line \<and> \<not> (strip (l_text line) = strip t \<and> l_page line \<le> 2))"

text \<open>The first element of each key, in the order of the list.\<close>

function first_occurrences :: "('a \<Rightarrow> 'k) \<Rightarrow> 'a list \<Rightarrow> 'a list" where
  "first_occurrences f [] = []"
| "first_occurrences f (x # xs) = x # first_occurrences f (filter (\<lambda>y. f y \<noteq> f x) xs)"
  by pat_completeness auto
termination
  by (relation "measure (\<lambda>(f, xs). length xs)") (auto simp: less_Suc_eq_le)

text \<open>
  The title, the body size and the heading sizes with which \<open>extract_outline\<close> runs its loop
  on the lines \<open>ls\<close>.
\<close>

definition outline_inputs :: "text_line list \<Rightarrow> string \<Rightarrow> rat \<Rightarrow> rat list \<Rightarrow> bool" where
  "outline_inputs ls t b hs =
     (\<exists>sz. extract_title ls = Inr t \<and> analyze_font_styles ls = Inr sz \<and>
           fallback_sizes ls sz = Inr (b, hs))"

text \<open>
  Following the words of the specification: the first 30 lines of page 1, or, when page 1
  has none, the first 30 lines of page 2.
\<close>

definition first_page_candidates :: "text_line list \<Rightarrow> text_line list" where
  "first_page_candidates ls =
     (let page1 = take 30 (filter (\<lambda>l. l_page l = 1) ls)
      in if page1 \<noteq> [] then page1 else take 30 (filter (\<lambda>l. l_page l = 2) ls))"

text \<open>
  The words of a text: its maximal runs of characters that are not whitespace, from left to
  right. \<open>words_from w s\<close> reads \<open>s\<close> with the word \<open>w\<close> begun.
\<close>

fun words_from :: "string \<Rightarrow> string \<Rightarrow> string list" where
  "words_from w [] = (if w = [] then [] else [w])"
| "words_from w (c # cs) =
     (if is_space c then (if w = [] then words_from [] cs else w # words_from [] cs)
      else words_from (w @ [c]) cs)"

definition words_of :: "string \<Rightarrow> string list" where
  "words_of s = words_from [] s"

text \<open>Words set one after the other with a single space between two of them.\<close>

definition spaced :: "string list \<Rightarrow> string" where
  "spaced ws = (case ws of [] \<Rightarrow> [] | w # rest \<Rightarrow> w @ concat (map (\<lambda>v. CHR '' '' # v) rest))"

text \<open>
  Following the words of the specification: the title is \<open>"Untitled Document"\<close> when there
  is no candidate line. Otherwise take the candidates of the largest size in their order; the
  title is made of the words of their texts, a single space between two words (so the texts
  are joined by single spaces, runs of whitespace are collapsed and nothing is left at either
  end), cut to 147 characters and an ellipsis when longer than 150, and it is
  \<open>"Untitled Document"\<close> when nothing is left. Nothing here is shared with the definitions
  of the program but the character class \<open>is_space\<close>.
\<close>

definition title_spec :: "text_line list \<Rightarrow> string" where
  "title_spec ls =
     (let cands = first_page_candidates ls
      in if cands = [] then ''Untitled Document''
         else (let largest = Max (l_size ` set cands);
                   ws = concat (map (\<lambda>l. words_of (l_text l))
                                  (filter (\<lambda>l. l_size l = largest) cands));
                   full = spaced ws;
                   shown = (if 150 < length full then take 147 full @ ''...'' else full)
               in if shown = [] then ''Untitled Document'' else shown))"

text \<open>
  The text after a dotted number does not go on with it: it starts neither with a digit
  nor with a dot that a digit follows.
\<close>

definition prefix_stops :: "string \<Rightarrow> bool" where
  "prefix_stops rest =
     (case rest of
        [] \<Rightarrow> True
      | c # cs \<Rightarrow> \<not> is_digit c \<and> \<not> (c = CHR ''.'' \<and> takeWhile is_digit cs \<noteq> []))"

text \<open>The level that a dotted number of \<open>n\<close> segments stands for.\<close>

definition level_of_segments :: "nat \<Rightarrow> level" where
  "level_of_segments n = (if n = 1 then H1 else if n = 2 then H2 else H3)"

text \<open>The groups \<open>.d\<close> of a dotted number after its first segment.\<close>

definition dot_groups :: "string list \<Rightarrow> string" where
  "dot_groups ds = concat (map (\<lambda>d. CHR ''.'' # d) ds)"

text \<open>The words made of any number of words of \<open>A\<close>, one after the other.\<close>

inductive_set star :: "string set \<Rightarrow> string set" for A :: "string set" where
  star_nil: "[] \<in> star A"
| star_step: "u \<in> A \<Longrightarrow> v \<in> star A \<Longrightarrow> u @ v \<in> star A"

text \<open>The language of a regular expression.\<close>

fun lang :: "rx \<Rightarrow> string set" where
  "lang Fail = {}"
| "lang Eps = {[]}"
| "lang (Cls P) = {[c] | c. P c}"
| "lang (Or r s) = lang r \<union> lang s"
| "lang (Then r s) = {u @ v | u v. u \<in> lang r \<and> v \<in> lang s}"
| "lang (Rep r) = star (lang r)"

text \<open>
  In the words of the specification: the text ends with one or more spaces, three or more
  dots, spaces or none, and one or more digits.
\<close>

definition dot_leader_shape :: "string \<Rightarrow> bool" where
  "dot_leader_shape s =
     (\<exists>before spaces dots spaces2 digits.
        s = before @ spaces @ dots @ spaces2 @ digits \<and>
        spaces \<noteq> [] \<and> list_all is_space spaces \<and>
        3 \<le> length dots \<and> list_all (\<lambda>c. c = CHR ''.'') dots \<and>
        list_all is_space spaces2 \<and>
        digits \<noteq> [] \<and> list_all is_digit digits)"

text \<open>What \<open>extract_text_lines\<close> checks of the text of a line before it keeps the line.\<close>

definition kept_ok :: "string set \<Rightarrow> text_line \<Rightarrow> bool" where
  "kept_ok hf l = (l_text l \<noteq> [] \<and> l_text l \<notin> hf \<and> \<not> re_search dot_leader (l_text l))"

text \<open>The lines of a block, of a page that can be read, and of a document.\<close>

definition block_lines :: "block \<Rightarrow> raw_line list" where
  "block_lines b = (case b of Lines ls \<Rightarrow> ls | NoLines \<Rightarrow> [])"

definition page_lines :: "pdf_page \<Rightarrow> raw_line list" where
  "page_lines pg =
     (case p_blocks pg of Inl e \<Rightarrow> [] | Inr blocks \<Rightarrow> concat (map block_lines blocks))"

definition doc_lines :: "document \<Rightarrow> raw_line list" where
  "doc_lines doc = concat (map page_lines doc)"

text \<open>
  The line starts above the top margin, the float product of the height of the first page and
  \<open>0.15\<close>; it starts below the bottom margin, the float product of that height and \<open>0.85\<close>
  (and not above the top margin, which the source tests first). Both margins are the ones
  the source computes.
\<close>

definition in_header_zone :: "document \<Rightarrow> raw_line \<Rightarrow> bool" where
  "in_header_zone doc line =
     (case doc of
        [] \<Rightarrow> False
      | first_page # _ \<Rightarrow>
          fst (snd (r_bbox line)) < float_mul (p_height first_page) float_0_15)"

definition in_footer_zone :: "document \<Rightarrow> raw_line \<Rightarrow> bool" where
  "in_footer_zone doc line =
     (case doc of
        [] \<Rightarrow> False
      | first_page # _ \<Rightarrow>
          \<not> in_header_zone doc line \<and>
          float_mul (p_height first_page) float_0_85 < fst (snd (r_bbox line)))"

text \<open>How many lines of the document have the text \<open>t\<close> and start in the zone.\<close>

definition header_occurrences :: "document \<Rightarrow> string \<Rightarrow> nat" where
  "header_occurrences doc t =
     length (filter (\<lambda>line. line_text_of line = t \<and> in_header_zone doc line) (doc_lines doc))"

definition footer_occurrences :: "document \<Rightarrow> string \<Rightarrow> nat" where
  "footer_occurrences doc t =
     length (filter (\<lambda>line. line_text_of line = t \<and> in_footer_zone doc line) (doc_lines doc))"

text \<open>The count of a key in a counter, 0 when it is absent.\<close>

definition count_of :: "('k \<times> nat) list \<Rightarrow> 'k \<Rightarrow> nat" where
  "count_of d k = (case map_of d k of None \<Rightarrow> 0 | Some n \<Rightarrow> n)"

section \<open>Example documents\<close>

text \<open>A line of one span, at the height \<open>y\<close> of the page.\<close>

definition example_line :: "string \<Rightarrow> rat \<Rightarrow> int \<Rightarrow> rat \<Rightarrow> raw_line" where
  "example_line t sz fl y =
     \<lparr>r_spans = [\<lparr>s_text = t, s_font = ''Helvetica'', s_size = sz, s_flags = fl\<rparr>],
      r_bbox = (72, y, 500, y + sz)\<rparr>"

text \<open>
  A report of two pages: a title, body text, a numbered heading, and the heading
  ``Introduction'' twice on page 1 (in two spellings) and once on page 2.
\<close>

definition example_doc :: document where
  "example_doc =
     [\<lparr>p_height = 800,
       p_blocks = Inr [Lines [example_line ''Annual Report'' 24 0 200,
                              example_line ''body text one'' 12 0 240,
                              example_line ''body text two'' 12 0 260,
                              example_line ''3.2 Data Pipeline'' 14 0 300,
                              example_line ''INTRODUCTION'' 16 16 340,
                              example_line ''Introduction'' 16 16 380],
                       NoLines]\<rparr>,
      \<lparr>p_height = 800,
       p_blocks = Inr [Lines [example_line ''Introduction'' 16 16 200,
                              example_line ''body text three'' 12 0 240]]\<rparr>]"

definition example_fs :: file_system where
  "example_fs path =
     (if path = ''report.pdf'' then Pdf example_doc
      else if path = ''broken.pdf'' then Broken
      else if path = ''empty.pdf'' then Pdf []
      else Missing)"

text \<open>The cleaned lines and the outline of the report.\<close>

definition example_lines :: "text_line list" where
  "example_lines =
     [\<lparr>l_text = ''Annual Report'', l_font = ''Helvetica'', l_size = 24, l_flags = 0,
       l_bbox = (72, 200, 500, 224), l_page = 1\<rparr>,
      \<lparr>l_text = ''body text one'', l_font = ''Helvetica'', l_size = 12, l_flags = 0,
       l_bbox = (72, 240, 500, 252), l_page = 1\<rparr>,
      \<lparr>l_text = ''body text two'', l_font = ''Helvetica'', l_size = 12, l_flags = 0,
       l_bbox = (72, 260, 500, 272), l_page = 1\<rparr>,
      \<lparr>l_text = ''3.2 Data Pipeline'', l_font = ''Helvetica'', l_size = 14, l_flags = 0,
       l_bbox = (72, 300, 500, 314), l_page = 1\<rparr>,
      \<lparr>l_text = ''INTRODUCTION'', l_font = ''Helvetica'', l_size = 16, l_flags = 16,
       l_bbox = (72, 340, 500, 356), l_page = 1\<rparr>,
      \<lparr>l_text = ''Introduction'', l_font = ''Helvetica'', l_size = 16, l_flags = 16,
       l_bbox = (72, 380, 500, 396), l_page = 1\<rparr>,
      \<lparr>l_text = ''Introduction'', l_font = ''Helvetica'', l_size = 16, l_flags = 16,
       l_bbox = (72, 200, 500, 216), l_page = 2\<rparr>,
      \<lparr>l_text = ''body text three'', l_font = ''Helvetica'', l_size = 12, l_flags = 0,
       l_bbox = (72, 240, 500, 252), l_page = 2\<rparr>]"

definition example_outline :: "entry list" where
  "example_outline =
     [\<lparr>e_level = H2, e_text = ''3.2 Data Pipeline'', e_page = 1\<rparr>,
      \<lparr>e_level = H2, e_text = ''INTRODUCTION'', e_page = 1\<rparr>,
      \<lparr>e_level = H2, e_text = ''Introduction'', e_page = 2\<rparr>]"

text \<open>
  A document of one page whose lines are all removed: a running header, a table-of-contents
  entry and a line of blanks.
\<close>

definition filtered_doc :: document where
  "filtered_doc =
     [\<lparr>p_height = 800,
       p_blocks = Inr [Lines [example_line ''Confidential'' 9 0 20,
                              example_line ''Contents ..... 42'' 12 0 300,
                              example_line ''   '' 12 0 320]]\<rparr>]"

definition filtered_fs :: file_system where
  "filtered_fs path = (if path = ''filtered.pdf'' then Pdf filtered_doc else Missing)"

text \<open>Three lines whose most frequent size is also the largest.\<close>

definition fallback_lines :: "text_line list" where
  "fallback_lines =
     [\<lparr>l_text = ''Body'', l_font = ''F'', l_size = 12, l_flags = 0, l_bbox = (0, 0, 0, 0), l_page = 1\<rparr>,
      \<lparr>l_text = ''Body'', l_font = ''F'', l_size = 12, l_flags = 0, l_bbox = (0, 0, 0, 0), l_page = 1\<rparr>,
      \<lparr>l_text = ''Note'', l_font = ''F'', l_size = 10, l_flags = 0, l_bbox = (0, 0, 0, 0), l_page = 1\<rparr>]"

text \<open>A numbered heading in the largest heading size.\<close>

definition numbered_line :: text_line where
  "numbered_line =
     \<lparr>l_text = ''3.2 Data Pipeline'', l_font = ''F'', l_size = 24, l_flags = 0,
      l_bbox = (0, 0, 0, 0), l_page = 3\<rparr>"

text \<open>A page with a line of body text and one line in the bottom margin.\<close>

definition footer_page :: "string \<Rightarrow> pdf_page" where
  "footer_page t =
     \<lparr>p_height = 800,
      p_blocks = Inr [Lines [example_line ''Some body text'' 12 0 300,
                             example_line t 9 0 760]]\<rparr>"

text \<open>Six pages, five of them with the same footer.\<close>

definition footer_doc :: document where
  "footer_doc =
     [footer_page ''Confidential'', footer_page ''Confidential'', footer_page ''Confidential'',
      footer_page ''Confidential'', footer_page ''Confidential'', footer_page ''Page 6'']"

text \<open>
  Lines for the title: candidates on page 2 only, with blanks and a tab around and between
  the words; a text of 151 characters and one of 150; a text of blanks; lines on page 3 only;
  thirty lines on page 1 followed by a larger one.
\<close>

definition title_line :: "string \<Rightarrow> rat \<Rightarrow> nat \<Rightarrow> text_line" where
  "title_line t sz pg =
     \<lparr>l_text = t, l_font = ''Helvetica'', l_size = sz, l_flags = 0,
      l_bbox = (72, 200, 500, 220), l_page = pg\<rparr>"

definition title_fallback_lines :: "text_line list" where
  "title_fallback_lines =
     [title_line ''small print'' 10 2,
      title_line (''  Deep'' @ [CHR 0x09] @ ''  Learning '') 20 2,
      title_line ''Notes'' 20 2,
      title_line ''Chapter One'' 30 3]"

definition title_long_lines :: "text_line list" where
  "title_long_lines = [title_line (replicate 151 (CHR ''A'')) 20 1]"

definition title_limit_lines :: "text_line list" where
  "title_limit_lines = [title_line (replicate 150 (CHR ''A'')) 20 1]"

definition title_blank_lines :: "text_line list" where
  "title_blank_lines = [title_line ''   '' 20 1, title_line ''Body'' 12 1]"

definition title_late_lines :: "text_line list" where
  "title_late_lines = [title_line ''Chapter One'' 30 3]"

definition title_thirty_lines :: "text_line list" where
  "title_thirty_lines = replicate 30 (title_line ''a'' 12 1) @ [title_line ''Big'' 40 1]"

text \<open>
  A page of height 792 with a line that starts exactly at the top margin the source computes
  (the float \<open>792.0 * 0.15\<close>, equal to the float \<open>118.8\<close>) and a line that starts at the
  float \<open>673.2\<close>, just below the bottom margin \<open>792.0 * 0.85\<close>.
\<close>

definition margin_doc :: document where
  "margin_doc =
     [\<lparr>p_height = 792,
       p_blocks = Inr [Lines
         [\<lparr>r_spans = [\<lparr>s_text = ''Line at 118.8'', s_font = ''F'', s_size = 10, s_flags = 0\<rparr>],
           r_bbox = (72, 8359806808306483 / 70368744177664, 500, 130)\<rparr>,
          \<lparr>r_spans = [\<lparr>s_text = ''Line at 673.2'', s_font = ''F'', s_size = 10, s_flags = 0\<rparr>],
           r_bbox = (72, 2960764911275213 / 4398046511104, 500, 690)\<rparr>]]\<rparr>]"

section \<open>Properties\<close>

subsection \<open>No exception leaves a stage\<close>

lemma py_max_total: "xs \<noteq> [] \<Longrightarrow> \<exists>m. py_max xs = Inr m"
  by (cases xs) auto

lemma title_of_lines_total: "ls \<noteq> [] \<Longrightarrow> \<exists>t. title_of_lines ls = Inr t"
  by (cases ls) (auto simp: title_of_lines_def Let_def)

lemma extract_title_total: "\<exists>t. extract_title ls = Inr t"
  unfolding extract_title_def Let_def
  by (auto simp: title_of_lines_total)

lemma analyze_font_styles_total: "\<exists>sz. analyze_font_styles ls = Inr sz"
proof (cases "counter (map l_size ls)")
  case Nil
  then show ?thesis by (simp add: analyze_font_styles_def Let_def)
next
  case (Cons x xs)
  then show ?thesis by (simp add: analyze_font_styles_def Let_def)
qed

lemma py_last_total: "xs \<noteq> [] \<Longrightarrow> py_last xs = Inr (last xs)"
  by (cases xs) auto

lemma fallback_sizes_total: "\<exists>b hs. fallback_sizes ls sz = Inr (b, hs)"
proof (cases "snd sz = [] \<and> 1 < length (sorted_desc (remdups (map l_size ls)))")
  case True
  then have "sorted_desc (remdups (map l_size ls)) \<noteq> []" by auto
  with True show ?thesis
    by (simp add: fallback_sizes_def Let_def py_last_total)
next
  case False
  then show ?thesis
    by (cases sz) (auto simp: fallback_sizes_def Let_def)
qed

lemma extract_outline_empty:
  "extract_text_lines fs p = [] \<Longrightarrow> extract_outline fs p = Inr error_result"
  by (simp add: extract_outline_def)

lemma extract_outline_nonempty:
  assumes "extract_text_lines fs p = ls" "ls \<noteq> []"
    and "extract_title ls = Inr t" "analyze_font_styles ls = Inr sz"
    and "fallback_sizes ls sz = Inr (b, hs)"
  shows "extract_outline fs p =
           Inr \<lparr>title = t, outline = sort_key e_page (collect_headings t b hs ls [] {})\<rparr>"
  using assms by (simp add: extract_outline_def)

lemma extract_outline_total: "\<exists>r. extract_outline fs p = Inr r"
proof (cases "extract_text_lines fs p = []")
  case True
  then show ?thesis by (simp add: extract_outline_empty)
next
  case False
  obtain t where t: "extract_title (extract_text_lines fs p) = Inr t"
    using extract_title_total by blast
  obtain sz where sz: "analyze_font_styles (extract_text_lines fs p) = Inr sz"
    using analyze_font_styles_total by blast
  obtain b hs where f: "fallback_sizes (extract_text_lines fs p) sz = Inr (b, hs)"
    using fallback_sizes_total by blast
  show ?thesis
    using extract_outline_nonempty [OF refl False t sz f] by simp
qed

lemma extract_text_lines_unavailable:
  "fs p = Missing \<or> fs p = Broken \<or> fs p = Pdf [] \<Longrightarrow> extract_text_lines fs p = []"
  by (auto simp: extract_text_lines_def extract_text_lines_try_def)

subsection \<open>The loop over the cleaned lines\<close>

lemma filter_key_filter:
  "filter (\<lambda>y. f y \<noteq> k) (filter (\<lambda>l. P l \<and> f l \<notin> S) xs) = filter (\<lambda>l. P l \<and> f l \<notin> insert k S) xs"
  by (induction xs) auto

lemma collect_headings_Cons:
  "collect_headings t b hs (line # rest) acc seen =
     (if qualifies t b line \<and> line_key line \<notin> seen
      then collect_headings t b hs rest (acc @ [mk_entry hs line]) (insert (line_key line) seen)
      else collect_headings t b hs rest acc seen)"
  by (auto simp: qualifies_def line_key_def mk_entry_def Let_def)

lemma collect_headings_eq:
  "collect_headings t b hs ls acc seen =
     acc @ map (mk_entry hs)
       (first_occurrences line_key (filter (\<lambda>l. qualifies t b l \<and> line_key l \<notin> seen) ls))"
proof (induction ls arbitrary: acc seen)
  case Nil
  then show ?case by simp
next
  case (Cons line rest)
  show ?case
  proof (cases "qualifies t b line \<and> line_key line \<notin> seen")
    case True
    have "collect_headings t b hs (line # rest) acc seen =
            collect_headings t b hs rest (acc @ [mk_entry hs line]) (insert (line_key line) seen)"
      using True by (simp add: collect_headings_Cons del: collect_headings.simps)
    also have "\<dots> = (acc @ [mk_entry hs line]) @ map (mk_entry hs)
        (first_occurrences line_key
          (filter (\<lambda>l. qualifies t b l \<and> line_key l \<notin> insert (line_key line) seen) rest))"
      by (rule Cons.IH)
    also have "\<dots> = acc @ map (mk_entry hs)
        (first_occurrences line_key
          (filter (\<lambda>l. qualifies t b l \<and> line_key l \<notin> seen) (line # rest)))"
    proof -
      have split: "filter (\<lambda>l. qualifies t b l \<and> line_key l \<notin> seen) (line # rest) =
          line # filter (\<lambda>l. qualifies t b l \<and> line_key l \<notin> seen) rest"
        using True by simp
      show ?thesis
        unfolding split first_occurrences.simps filter_key_filter by simp
    qed
    finally show ?thesis .
  next
    case False
    have "collect_headings t b hs (line # rest) acc seen = collect_headings t b hs rest acc seen"
      using False by (auto simp add: collect_headings_Cons simp del: collect_headings.simps)
    also have "\<dots> = acc @ map (mk_entry hs)
        (first_occurrences line_key (filter (\<lambda>l. qualifies t b l \<and> line_key l \<notin> seen) rest))"
      by (rule Cons.IH)
    also have "\<dots> = acc @ map (mk_entry hs)
        (first_occurrences line_key
          (filter (\<lambda>l. qualifies t b l \<and> line_key l \<notin> seen) (line # rest)))"
      using False by auto
    finally show ?thesis .
  qed
qed

lemma set_first_occurrences: "set (first_occurrences f xs) \<subseteq> set xs"
  by (induction f xs rule: first_occurrences.induct) auto

lemma first_occurrences_keys: "f ` set (first_occurrences f xs) = f ` set xs"
  by (induction f xs rule: first_occurrences.induct) (auto simp: image_iff)

lemma distinct_first_occurrences: "distinct (map f (first_occurrences f xs))"
proof (induction f xs rule: first_occurrences.induct)
  case (1 f)
  then show ?case by simp
next
  case (2 f x xs)
  have "f x \<notin> f ` set (first_occurrences f (filter (\<lambda>y. f y \<noteq> f x) xs))"
    using set_first_occurrences [of f "filter (\<lambda>y. f y \<noteq> f x) xs"] by auto
  with 2 show ?case by simp
qed

lemma subseq_first_occurrences: "subseq (first_occurrences f xs) xs"
proof (induction f xs rule: first_occurrences.induct)
  case (1 f)
  then show ?case by simp
next
  case (2 f x xs)
  have "subseq (filter (\<lambda>y. f y \<noteq> f x) xs) xs" by simp
  with 2 have "subseq (first_occurrences f (filter (\<lambda>y. f y \<noteq> f x) xs)) xs"
    by (rule subseq_order.trans)
  then show ?case by simp
qed

lemma entry_key_mk_entry: "entry_key (mk_entry hs l) = line_key l"
  by (simp add: entry_key_def mk_entry_def line_key_def)

lemma distinct_map_sort_key: "distinct (map f (sort_key g xs)) = distinct (map f xs)"
  by (simp add: distinct_map)

subsection \<open>The example report\<close>

lemma example_text_lines: "extract_text_lines example_fs ''report.pdf'' = example_lines"
  by code_simp

lemma example_title: "extract_title example_lines = Inr ''Annual Report''"
  by code_simp

lemma example_analyze: "analyze_font_styles example_lines = Inr (12, [24, 16, 14])"
  by code_simp

lemma example_fallback: "fallback_sizes example_lines (12, [24, 16, 14]) = Inr (12, [24, 16, 14])"
  by code_simp

lemma example_inputs:
  "outline_inputs (extract_text_lines example_fs ''report.pdf'') ''Annual Report'' 12 [24, 16, 14]"
  unfolding outline_inputs_def example_text_lines
  using example_title example_analyze example_fallback by blast

lemma example_result:
  "extract_outline example_fs ''report.pdf'' =
     Inr \<lparr>title = ''Annual Report'', outline = example_outline\<rparr>"
  by code_simp

subsection \<open>The result of \<open>extract_outline\<close>\<close>

lemma outline_of_result:
  assumes "outline_inputs (extract_text_lines fs p) t b hs" "extract_outline fs p = Inr r"
  shows "outline r = sort_key e_page (collect_headings t b hs (extract_text_lines fs p) [] {})"
proof (cases "extract_text_lines fs p = []")
  case True
  then show ?thesis
    using assms(2) by (auto simp add: extract_outline_empty error_result_def)
next
  case False
  from assms(1) obtain sz where
    "extract_title (extract_text_lines fs p) = Inr t"
    "analyze_font_styles (extract_text_lines fs p) = Inr sz"
    "fallback_sizes (extract_text_lines fs p) sz = Inr (b, hs)"
    unfolding outline_inputs_def by blast
  from extract_outline_nonempty [OF refl False this] assms(2)
  show ?thesis by auto
qed

lemma outline_of_result_lines:
  assumes "outline_inputs (extract_text_lines fs p) t b hs" "extract_outline fs p = Inr r"
  shows "outline r = sort_key e_page (map (mk_entry hs)
            (first_occurrences line_key (filter (qualifies t b) (extract_text_lines fs p))))"
  using outline_of_result [OF assms] by (simp add: collect_headings_eq)

text \<open>
  C10. Whenever the cleaned line sequence is empty, \<open>extract_outline\<close> returns the fixed error
  result, whatever the reason the sequence is empty. The example after it is a document that
  opens and has one page, whose three lines are removed by the suppression set, by the
  dot-leader filter and for their empty text.
\<close>
theorem C10_no_lines_error_result:
  "extract_text_lines fs p = [] \<Longrightarrow> extract_outline fs p = Inr error_result"
  by (simp add: extract_outline_def)

theorem C10_no_lines_error_result_witness:
  "filtered_fs ''filtered.pdf'' = Pdf filtered_doc \<and>
   extract_text_lines filtered_fs ''filtered.pdf'' = [] \<and>
   extract_outline filtered_fs ''filtered.pdf'' = Inr error_result"
proof -
  have h: "extract_text_lines filtered_fs ''filtered.pdf'' = []" by code_simp
  have f: "filtered_fs ''filtered.pdf'' = Pdf filtered_doc" by (simp add: filtered_fs_def)
  show ?thesis using f h C10_no_lines_error_result [OF h] by simp
qed

text \<open>
  C1. For every file system and path, \<open>extract_outline\<close> returns a result (no exception
  leaves it: the value is never \<open>Inl\<close>), with a title that is a string and an outline
  that is a list; for a missing file, a file that cannot be opened and a document of no
  page, the result is the fixed error result.
\<close>
theorem C1_always_a_result:
  "(\<exists>r. extract_outline fs p = Inr r) \<and>
   (fs p = Missing \<or> fs p = Broken \<or> fs p = Pdf [] \<longrightarrow> extract_outline fs p = Inr error_result)"
  using extract_outline_total [of fs p] extract_text_lines_unavailable [of fs p]
    extract_outline_empty [of fs p] by blast

theorem C1_always_a_result_witness:
  "example_fs ''broken.pdf'' = Broken \<and>
   (\<exists>r. extract_outline example_fs ''broken.pdf'' = Inr r) \<and>
   extract_outline example_fs ''broken.pdf'' = Inr error_result"
proof -
  have h: "example_fs ''broken.pdf'' = Broken" by (simp add: example_fs_def)
  show ?thesis using h C1_always_a_result [of example_fs "''broken.pdf''"] by simp
qed

text \<open>
  C3. The keys (lowercased text, page) of the entries of the returned outline are pairwise
  distinct, and the outline is, sorted by page, the list of the entries made from the first
  line of each key among the lines that pass the size filter, the heading test and the
  title filter, in the order of the cleaned lines. In the example two lines equal up to
  case are on page 1 and give one entry, the one of the first; the same text on page 2 gives
  a second entry.
\<close>
theorem C3_one_entry_per_key:
  assumes "outline_inputs (extract_text_lines fs p) t b hs" "extract_outline fs p = Inr r"
  shows "distinct (map entry_key (outline r)) \<and>
         outline r = sort_key e_page (map (mk_entry hs)
            (first_occurrences line_key (filter (qualifies t b) (extract_text_lines fs p))))"
proof -
  have eq: "outline r = sort_key e_page (map (mk_entry hs)
            (first_occurrences line_key (filter (qualifies t b) (extract_text_lines fs p))))"
    by (rule outline_of_result_lines [OF assms])
  have "map entry_key (map (mk_entry hs) xs) = map line_key xs" for xs
    by (simp add: entry_key_mk_entry)
  then have "distinct (map entry_key (outline r))"
    unfolding eq distinct_map_sort_key by (simp only: distinct_first_occurrences)
  with eq show ?thesis by simp
qed

theorem C3_one_entry_per_key_witness:
  "outline_inputs (extract_text_lines example_fs ''report.pdf'') ''Annual Report'' 12 [24, 16, 14] \<and>
   extract_outline example_fs ''report.pdf'' =
     Inr \<lparr>title = ''Annual Report'', outline = example_outline\<rparr> \<and>
   distinct (map entry_key example_outline) \<and>
   example_outline = sort_key e_page (map (mk_entry [24, 16, 14])
      (first_occurrences line_key
         (filter (qualifies ''Annual Report'' 12) (extract_text_lines example_fs ''report.pdf''))))"
  using C3_one_entry_per_key [OF example_inputs example_result] example_inputs example_result
  by simp

text \<open>
  C4. The returned outline is made, entry by entry, from a subsequence of the cleaned lines
  all of whose sizes are strictly greater than the body size in force (the one left by the
  fallback): no line of a size at most the body size gives an entry.
\<close>
theorem C4_entries_above_body_size:
  assumes "outline_inputs (extract_text_lines fs p) t b hs" "extract_outline fs p = Inr r"
  shows "\<exists>src. subseq src (extract_text_lines fs p) \<and> (\<forall>l \<in> set src. b < l_size l) \<and>
           outline r = sort_key e_page (map (mk_entry hs) src)"
proof -
  let ?q = "filter (qualifies t b) (extract_text_lines fs p)"
  let ?src = "first_occurrences line_key ?q"
  have "subseq ?src ?q" by (rule subseq_first_occurrences)
  moreover have "subseq ?q (extract_text_lines fs p)" by simp
  ultimately have 1: "subseq ?src (extract_text_lines fs p)" by (rule subseq_order.trans)
  have "set ?src \<subseteq> set ?q" by (rule set_first_occurrences)
  then have 2: "\<forall>l \<in> set ?src. b < l_size l" by (auto simp: qualifies_def)
  have 3: "outline r = sort_key e_page (map (mk_entry hs) ?src)"
    by (rule outline_of_result_lines [OF assms])
  from 1 2 3 show ?thesis by blast
qed

theorem C4_entries_above_body_size_witness:
  "outline_inputs (extract_text_lines example_fs ''report.pdf'') ''Annual Report'' 12 [24, 16, 14] \<and>
   extract_outline example_fs ''report.pdf'' =
     Inr \<lparr>title = ''Annual Report'', outline = example_outline\<rparr> \<and>
   (\<exists>src. subseq src (extract_text_lines example_fs ''report.pdf'') \<and>
      (\<forall>l \<in> set src. 12 < l_size l) \<and>
      example_outline = sort_key e_page (map (mk_entry [24, 16, 14]) src))"
  using C4_entries_above_body_size [OF example_inputs example_result]
    example_inputs example_result
  by simp

text \<open>
  C5. The returned outline is sorted by page number, and for each page its entries stand in
  the order in which the loop appended them.
\<close>
theorem C5_sorted_by_page_stable:
  assumes "outline_inputs (extract_text_lines fs p) t b hs" "extract_outline fs p = Inr r"
  shows "sorted (map e_page (outline r)) \<and>
         (\<forall>k. filter (\<lambda>e. e_page e = k) (outline r) =
               filter (\<lambda>e. e_page e = k)
                 (collect_headings t b hs (extract_text_lines fs p) [] {}))"
  unfolding outline_of_result [OF assms]
  by (simp add: sort_key_stable)

theorem C5_sorted_by_page_stable_witness:
  "outline_inputs (extract_text_lines example_fs ''report.pdf'') ''Annual Report'' 12 [24, 16, 14] \<and>
   extract_outline example_fs ''report.pdf'' =
     Inr \<lparr>title = ''Annual Report'', outline = example_outline\<rparr> \<and>
   sorted (map e_page example_outline) \<and>
   (\<forall>k. filter (\<lambda>e. e_page e = k) example_outline =
         filter (\<lambda>e. e_page e = k)
           (collect_headings ''Annual Report'' 12 [24, 16, 14]
              (extract_text_lines example_fs ''report.pdf'') [] {}))"
  using C5_sorted_by_page_stable [OF example_inputs example_result]
    example_inputs example_result
  by simp

subsection \<open>Title and fallback sizes\<close>

lemma fold_max_eq: "fold (\<lambda>y m. if m < y then y else m) xs (x::rat) = Max (set (x # xs))"
proof -
  have eq: "(\<lambda>y m. if m < y then y else m) = (max :: rat \<Rightarrow> rat \<Rightarrow> rat)"
    by (intro ext) (auto simp: max_def)
  show ?thesis unfolding eq by (rule Max.set_eq_fold [symmetric])
qed

lemma py_max_eq: "xs \<noteq> [] \<Longrightarrow> py_max xs = Inr (Max (set xs))"
  by (cases xs) (simp_all only: py_max.simps fold_max_eq list.distinct)

lemma title_of_lines_eq:
  assumes "cands \<noteq> []"
  shows "title_of_lines cands =
     Inr (let largest = Max (l_size ` set cands);
              joined = join '' '' (map l_text (filter (\<lambda>l. l_size l = largest) cands));
              collapsed = collapse_ws (strip joined);
              shown = (if 150 < length collapsed then take 147 collapsed @ ''...''
                       else collapsed)
          in if shown = [] then ''Untitled Document'' else shown)"
proof -
  have "py_max (map l_size cands) = Inr (Max (l_size ` set cands))"
    using assms by (simp add: py_max_eq)
  then show ?thesis
    by (simp add: title_of_lines_def Let_def)
qed

lemma words_from_all_space: "list_all is_space t \<Longrightarrow> words_from w t = (if w = [] then [] else [w])"
  by (induction t arbitrary: w) auto

lemma words_from_nonempty: "w \<noteq> [] \<Longrightarrow> words_from w s \<noteq> []"
  by (induction s arbitrary: w) auto

lemma words_from_empty_last:
  "words_from [] s = [] \<Longrightarrow> s \<noteq> [] \<Longrightarrow> is_space (last s)"
proof (induction s)
  case Nil
  then show ?case by simp
next
  case (Cons c cs)
  show ?case
  proof (cases "is_space c")
    case True
    with Cons show ?thesis by (cases cs) auto
  next
    case False
    with Cons.prems show ?thesis using words_from_nonempty [of "[c]" cs] by simp
  qed
qed

lemma words_from_space_split:
  "is_space c \<Longrightarrow> words_from w (a @ c # b) = words_from w a @ words_from [] b"
  by (induction a arbitrary: w) auto

lemma words_from_trailing: "list_all is_space t \<Longrightarrow> words_from w (x @ t) = words_from w x"
  by (induction x arbitrary: w) (auto simp: words_from_all_space)

lemma words_from_leading: "list_all is_space t \<Longrightarrow> words_from [] (t @ x) = words_from [] x"
  by (induction t) auto

lemma words_of_join: "words_of (join '' '' ts) = concat (map words_of ts)"
proof (induction ts)
  case Nil
  then show ?case by (simp add: words_of_def)
next
  case (Cons t ts)
  show ?case
  proof (cases ts)
    case Nil
    then show ?thesis by simp
  next
    case (Cons u us)
    have sp: "is_space (CHR '' '')" by (simp add: is_space_def)
    have "join '' '' (t # u # us) = t @ CHR '' '' # join '' '' (u # us)" by simp
    then have "words_of (join '' '' (t # u # us)) = words_of t @ words_of (join '' '' (u # us))"
      by (simp only: words_of_def words_from_space_split [OF sp])
    with Cons Cons.IH show ?thesis by simp
  qed
qed

lemma strip_decomp:
  "\<exists>a b. s = a @ strip s @ b \<and> list_all is_space a \<and> list_all is_space b"
proof -
  let ?r = "dropWhile is_space s"
  have 1: "s = takeWhile is_space s @ ?r" by simp
  have "?r = rev (takeWhile is_space (rev ?r) @ dropWhile is_space (rev ?r))"
    by (simp only: takeWhile_dropWhile_id rev_rev_ident)
  also have "\<dots> = rev (dropWhile is_space (rev ?r)) @ rev (takeWhile is_space (rev ?r))"
    by (rule rev_append)
  finally have 2: "?r = strip s @ rev (takeWhile is_space (rev ?r))"
    by (simp only: strip_def)
  have 3: "list_all is_space (takeWhile is_space s)"
    and 4: "list_all is_space (rev (takeWhile is_space (rev ?r)))"
    by (auto simp: list_all_iff dest: set_takeWhileD)
  from 1 2 have "s = takeWhile is_space s @ strip s @ rev (takeWhile is_space (rev ?r))"
    by metis
  with 3 4 show ?thesis by blast
qed

lemma words_of_strip: "words_of (strip s) = words_of s"
proof -
  obtain a b where s: "s = a @ strip s @ b" and a: "list_all is_space a"
    and b: "list_all is_space b"
    using strip_decomp by blast
  have "words_of s = words_from [] (a @ (strip s @ b))" by (metis s words_of_def)
  also have "\<dots> = words_from [] (strip s @ b)" using a by (rule words_from_leading)
  also have "\<dots> = words_from [] (strip s)" using b by (rule words_from_trailing)
  finally show ?thesis by (simp add: words_of_def)
qed

lemma strip_no_leading: "dropWhile is_space (strip s) = strip s"
proof (cases "strip s")
  case Nil
  then show ?thesis by simp
next
  case (Cons c cs)
  let ?r = "dropWhile is_space s"
  let ?x = "dropWhile is_space (rev ?r)"
  have x: "strip s = rev ?x" by (simp add: strip_def)
  with Cons have ne: "?x \<noteq> []" by auto
  have "rev ?r = takeWhile is_space (rev ?r) @ ?x" by simp
  then have "last (rev ?r) = last ?x" using ne by (metis last_appendR)
  moreover have "?r \<noteq> []" using ne by (cases "?r = []") simp_all
  ultimately have "last ?x = hd ?r" by (simp add: last_rev)
  moreover have "\<not> is_space (hd ?r)" using \<open>?r \<noteq> []\<close> by (rule hd_dropWhile)
  moreover have "hd (strip s) = last ?x" using ne by (simp add: x hd_rev)
  ultimately have "\<not> is_space (hd (strip s))" by simp
  with Cons show ?thesis by simp
qed

lemma strip_no_trailing: "strip s \<noteq> [] \<Longrightarrow> \<not> is_space (last (strip s))"
proof -
  assume ne: "strip s \<noteq> []"
  let ?x = "dropWhile is_space (rev (dropWhile is_space s))"
  have x: "strip s = rev ?x" by (simp add: strip_def)
  with ne have "?x \<noteq> []" by auto
  then have "\<not> is_space (hd ?x)" by (rule hd_dropWhile)
  moreover have "last (strip s) = hd ?x" using \<open>?x \<noteq> []\<close> by (simp add: x last_rev)
  ultimately show ?thesis by simp
qed

lemma spaced_Cons: "spaced (w # ws) = w @ concat (map (\<lambda>v. CHR '' '' # v) ws)"
  by (simp add: spaced_def)

lemma spaced_tail: "ws \<noteq> [] \<Longrightarrow> concat (map (\<lambda>v. CHR '' '' # v) ws) = CHR '' '' # spaced ws"
  by (cases ws) (simp_all add: spaced_def)

lemma collapse_ws_words:
  "(\<forall>w. w \<noteq> [] \<longrightarrow>
        w @ collapse_ws s =
          spaced (words_from w s) @ (if s \<noteq> [] \<and> is_space (last s) then '' '' else [])) \<and>
   collapse_ws (dropWhile is_space s) =
     spaced (words_from [] s) @
       (if words_from [] s \<noteq> [] \<and> s \<noteq> [] \<and> is_space (last s) then '' '' else [])"
proof (induction s)
  case Nil
  then show ?case by (simp add: spaced_def)
next
  case (Cons c cs)
  from Cons.IH have
    D: "\<And>w. w \<noteq> [] \<Longrightarrow> w @ collapse_ws cs =
          spaced (words_from w cs) @ (if cs \<noteq> [] \<and> is_space (last cs) then '' '' else [])"
    and D0: "collapse_ws (dropWhile is_space cs) =
      spaced (words_from [] cs) @
        (if words_from [] cs \<noteq> [] \<and> cs \<noteq> [] \<and> is_space (last cs) then '' '' else [])"
    by simp_all
  show ?case
  proof (cases "is_space c")
    case True
    have first: "w @ collapse_ws (c # cs) =
        spaced (words_from w (c # cs)) @
          (if c # cs \<noteq> [] \<and> is_space (last (c # cs)) then '' '' else [])"
      if w: "w \<noteq> []" for w
    proof (cases "words_from [] cs = []")
      case e: True
      have "cs \<noteq> [] \<Longrightarrow> is_space (last cs)" using e by (rule words_from_empty_last)
      then have l: "is_space (last (c # cs))" using True by simp
      have "collapse_ws (dropWhile is_space cs) = []" using D0 e by (simp add: spaced_def)
      then show ?thesis using True w e l by (simp add: spaced_def)
    next
      case ne: False
      then have cs: "cs \<noteq> []" by auto
      have "w @ collapse_ws (c # cs) = w @ CHR '' '' # collapse_ws (dropWhile is_space cs)"
        using True by simp
      also have "\<dots> = w @ CHR '' '' # spaced (words_from [] cs) @
          (if cs \<noteq> [] \<and> is_space (last cs) then '' '' else [])"
        using D0 ne by simp
      also have "\<dots> = spaced (w # words_from [] cs) @
          (if cs \<noteq> [] \<and> is_space (last cs) then '' '' else [])"
        by (simp add: spaced_Cons spaced_tail [OF ne])
      finally show ?thesis using True w cs by simp
    qed
    have second: "collapse_ws (dropWhile is_space (c # cs)) =
        spaced (words_from [] (c # cs)) @
          (if words_from [] (c # cs) \<noteq> [] \<and> c # cs \<noteq> [] \<and> is_space (last (c # cs))
           then '' '' else [])"
    proof (cases "words_from [] cs = []")
      case e: True
      then show ?thesis using True D0 by simp
    next
      case ne: False
      then have cs: "cs \<noteq> []" by auto
      then show ?thesis using True D0 ne by simp
    qed
    from first second show ?thesis by blast
  next
    case False
    have last_eq: "(c # cs \<noteq> [] \<and> is_space (last (c # cs))) = (cs \<noteq> [] \<and> is_space (last cs))"
      using False by simp
    have first: "w @ collapse_ws (c # cs) =
        spaced (words_from w (c # cs)) @
          (if c # cs \<noteq> [] \<and> is_space (last (c # cs)) then '' '' else [])"
      if w: "w \<noteq> []" for w
    proof -
      have "w @ collapse_ws (c # cs) = (w @ [c]) @ collapse_ws cs" using False by simp
      also have "\<dots> = spaced (words_from (w @ [c]) cs) @
          (if cs \<noteq> [] \<and> is_space (last cs) then '' '' else [])"
        by (rule D) simp
      finally show ?thesis unfolding last_eq using False by simp
    qed
    have second: "collapse_ws (dropWhile is_space (c # cs)) =
        spaced (words_from [] (c # cs)) @
          (if words_from [] (c # cs) \<noteq> [] \<and> c # cs \<noteq> [] \<and> is_space (last (c # cs))
           then '' '' else [])"
    proof -
      have ne: "words_from [c] cs \<noteq> []" by (rule words_from_nonempty) simp
      have "collapse_ws (dropWhile is_space (c # cs)) = [c] @ collapse_ws cs"
        using False by simp
      also have "\<dots> = spaced (words_from [c] cs) @
          (if cs \<noteq> [] \<and> is_space (last cs) then '' '' else [])"
        by (rule D) simp
      finally show ?thesis using False ne last_eq by simp
    qed
    from first second show ?thesis by blast
  qed
qed

lemma collapse_ws_strip: "collapse_ws (strip s) = spaced (words_of s)"
proof -
  have "collapse_ws (strip s) = collapse_ws (dropWhile is_space (strip s))"
    by (simp only: strip_no_leading)
  also have "\<dots> = spaced (words_from [] (strip s)) @
      (if words_from [] (strip s) \<noteq> [] \<and> strip s \<noteq> [] \<and> is_space (last (strip s))
       then '' '' else [])"
    using collapse_ws_words [of "strip s"] by blast
  also have "\<dots> = spaced (words_from [] (strip s))"
    using strip_no_trailing [of s] by auto
  also have "\<dots> = spaced (words_of s)"
    using words_of_strip [of s] by (simp add: words_of_def)
  finally show ?thesis .
qed

lemma title_text_eq:
  "collapse_ws (strip (join '' '' ts)) = spaced (concat (map words_of ts))"
  by (simp only: collapse_ws_strip words_of_join)

lemma words_from_concat: "concat (words_from w s) = w @ filter (\<lambda>c. \<not> is_space c) s"
  by (induction s arbitrary: w) auto

lemma words_from_words:
  "list_all (\<lambda>c. \<not> is_space c) w \<Longrightarrow>
   list_all (\<lambda>x. x \<noteq> [] \<and> list_all (\<lambda>c. \<not> is_space c) x) (words_from w s)"
  by (induction s arbitrary: w) auto

lemma extract_title_eq: "extract_title ls = Inr (title_spec ls)"
proof (cases "first_page_candidates ls = []")
  case True
  then show ?thesis
    by (auto simp: extract_title_def title_spec_def first_page_candidates_def Let_def
        split: if_splits)
next
  case False
  then have ne: "ls \<noteq> []" by (auto simp: first_page_candidates_def)
  have "extract_title ls = title_of_lines (first_page_candidates ls)"
    using False ne by (auto simp: extract_title_def first_page_candidates_def Let_def)
  also have "\<dots> = Inr (title_spec ls)"
  proof -
    have w: "collapse_ws (strip (join '' '' (map l_text xs))) =
        spaced (concat (map (\<lambda>l. words_of (l_text l)) xs))" for xs
      by (simp add: title_text_eq comp_def)
    show ?thesis
      using False by (simp add: title_of_lines_eq title_spec_def Let_def w)
  qed
  finally show ?thesis .
qed

lemma sorted_rev_of_neg: "sorted (map (\<lambda>x. - x) (ys::rat list)) \<Longrightarrow> sorted (rev ys)"
  by (induction ys) (auto simp: sorted_append)

lemma sorted_desc_props:
  "set (sorted_desc xs) = set xs" "distinct (sorted_desc xs) = distinct xs"
  "sorted (rev (sorted_desc xs))" "length (sorted_desc xs) = length xs"
  unfolding sorted_desc_def
  by (simp_all add: sorted_rev_of_neg)

lemma last_sorted_rev_Min:
  assumes "sorted (rev (ys::rat list))" "ys \<noteq> []"
  shows "last ys = Min (set ys)"
proof -
  have "last ys \<in> set ys" using assms(2) by simp
  moreover have "\<forall>y \<in> set ys. last ys \<le> y"
    using assms by (induction ys rule: rev_induct) (auto simp: sorted_append)
  ultimately show ?thesis by (intro Min_eqI [symmetric]) auto
qed

lemma fallback_sizes_two_sizes:
  assumes "2 \<le> card (l_size ` set ls)"
  shows "\<exists>hs. fallback_sizes ls (b0, []) = Inr (Min (l_size ` set ls), hs) \<and>
           set hs = {s \<in> l_size ` set ls. Min (l_size ` set ls) < s} \<and>
           distinct hs \<and> sorted (rev hs) \<and> hs \<noteq> []"
proof -
  let ?S = "l_size ` set ls"
  let ?u = "sorted_desc (remdups (map l_size ls))"
  have set_u: "set ?u = ?S" by (simp add: sorted_desc_props)
  have dist_u: "distinct ?u" by (simp add: sorted_desc_props)
  have len_u: "length ?u = card ?S"
    using distinct_card [OF dist_u] set_u by simp
  have srt_u: "sorted (rev ?u)" by (rule sorted_desc_props)
  have ne_u: "?u \<noteq> []" using len_u assms by auto
  have last_u: "last ?u = Min ?S"
    using last_sorted_rev_Min [OF srt_u ne_u] set_u by simp
  let ?hs = "filter (\<lambda>s. Min ?S < s) ?u"
  have run: "fallback_sizes ls (b0, []) = Inr (Min ?S, ?hs)"
    using len_u assms ne_u last_u
    by (simp add: fallback_sizes_def Let_def py_last_total)
  have set_hs: "set ?hs = {s \<in> ?S. Min ?S < s}" using set_u by auto
  have dist_hs: "distinct ?hs" using dist_u by simp
  have "sorted (filter (\<lambda>s. Min ?S < s) (rev ?u))" using srt_u by (rule sorted_wrt_filter)
  then have srt_hs: "sorted (rev ?hs)" by (simp add: rev_filter)
  have "\<exists>s \<in> ?S. s \<noteq> Min ?S"
  proof (rule ccontr)
    assume "\<not> (\<exists>s \<in> ?S. s \<noteq> Min ?S)"
    then have "?S \<subseteq> {Min ?S}" by auto
    then have "card ?S \<le> card {Min ?S}" by (intro card_mono) auto
    with assms show False by simp
  qed
  then obtain s where "s \<in> ?S" and neq: "Min ?S \<noteq> s" by metis
  have le: "Min ?S \<le> s" by (rule Min_le) (use \<open>s \<in> ?S\<close> in auto)
  have "Min ?S < s" by (rule order.not_eq_order_implies_strict [OF neq le])
  with \<open>s \<in> ?S\<close> have "s \<in> {s \<in> ?S. Min ?S < s}" by blast
  then have "s \<in> set ?hs" by (simp only: set_hs)
  then have ne_hs: "?hs \<noteq> []" by (metis empty_iff list.set(1))
  from run set_hs dist_hs srt_hs ne_hs show ?thesis by blast
qed

lemma fallback_example_analyze: "analyze_font_styles fallback_lines = Inr (12, [])"
  by code_simp

lemma fallback_example_card: "2 \<le> card (l_size ` set fallback_lines)"
  by (simp add: fallback_lines_def)

lemma fallback_example_run: "fallback_sizes fallback_lines (12, []) = Inr (10, [12])"
  by code_simp

lemma fallback_example_min: "Min (l_size ` set fallback_lines) = 10"
  by (simp add: fallback_lines_def)

text \<open>
  C6. When \<open>analyze_font_styles\<close> finds no heading size and the cleaned lines have at least
  two distinct sizes, the fallback returns the smallest size as body size, and as heading
  sizes exactly the distinct sizes strictly above it, in descending order; that list is not
  empty.
\<close>

theorem C6_fallback_sizes:
  assumes "analyze_font_styles ls = Inr (b0, [])" and "2 \<le> card (l_size ` set ls)"
  shows "\<exists>hs. fallback_sizes ls (b0, []) = Inr (Min (l_size ` set ls), hs) \<and>
           set hs = {s \<in> l_size ` set ls. Min (l_size ` set ls) < s} \<and>
           distinct hs \<and> sorted (rev hs) \<and> hs \<noteq> []"
  using assms(2) by (rule fallback_sizes_two_sizes)

theorem C6_fallback_sizes_witness:
  "analyze_font_styles fallback_lines = Inr (12, []) \<and>
   2 \<le> card (l_size ` set fallback_lines) \<and>
   (\<exists>hs. fallback_sizes fallback_lines (12, []) = Inr (10, hs) \<and>
      set hs = {s \<in> l_size ` set fallback_lines. 10 < s} \<and>
      distinct hs \<and> sorted (rev hs) \<and> hs \<noteq> [])"
  using C6_fallback_sizes [OF fallback_example_analyze fallback_example_card]
    fallback_example_analyze fallback_example_card fallback_example_min
  by simp

lemma title_spec_examples:
  "title_spec example_lines = ''Annual Report''"
  "title_spec title_fallback_lines = ''Deep Learning Notes''"
  "title_spec title_long_lines = replicate 147 (CHR ''A'') @ ''...''"
  "title_spec title_limit_lines = replicate 150 (CHR ''A'')"
  "title_spec title_blank_lines = ''Untitled Document''"
  "title_spec title_late_lines = ''Untitled Document''"
  "title_spec [] = ''Untitled Document''"
  "title_spec title_thirty_lines = spaced (replicate 30 ''a'')"
  by code_simp+

text \<open>
  C9. \<open>extract_title\<close> never raises and returns the title that the specification describes,
  \<open>title_spec\<close>: from the first 30 lines of page 1, else of page 2, the words of the
  texts of the largest size with single spaces between them, cut at 150 characters, and
  the default title when there is no candidate or no word. The examples after it go through
  the fallback to page 2, whitespace to collapse and to trim, the cut at 151 characters and
  none at 150, the default title, and the limit of 30 lines.
\<close>

theorem C9_title: "extract_title ls = Inr (title_spec ls)"
  by (rule extract_title_eq)

theorem C9_title_witness:
  "extract_title example_lines = Inr ''Annual Report'' \<and>
   extract_title title_fallback_lines = Inr ''Deep Learning Notes'' \<and>
   extract_title title_long_lines = Inr (replicate 147 (CHR ''A'') @ ''...'') \<and>
   extract_title title_limit_lines = Inr (replicate 150 (CHR ''A'')) \<and>
   extract_title title_blank_lines = Inr ''Untitled Document'' \<and>
   extract_title title_late_lines = Inr ''Untitled Document'' \<and>
   extract_title [] = Inr ''Untitled Document'' \<and>
   extract_title title_thirty_lines = Inr (spaced (replicate 30 ''a''))"
  using C9_title [of example_lines] C9_title [of title_fallback_lines]
    C9_title [of title_long_lines] C9_title [of title_limit_lines]
    C9_title [of title_blank_lines] C9_title [of title_late_lines] C9_title [of "[]"]
    C9_title [of title_thirty_lines]
  by (simp only: title_spec_examples simp_thms)

subsection \<open>Numbered headings\<close>

lemma not_digit_dot: "\<not> is_digit (CHR ''.'')"
  by (simp add: is_digit_def)

lemma takeWhile_digits_append:
  "list_all is_digit d \<Longrightarrow> takeWhile is_digit r = [] \<Longrightarrow> takeWhile is_digit (d @ r) = d"
  by (induction d) auto

lemma dropWhile_digits_append:
  "list_all is_digit d \<Longrightarrow> takeWhile is_digit r = [] \<Longrightarrow> dropWhile is_digit (d @ r) = r"
proof (induction d)
  case Nil
  have "takeWhile is_digit r @ dropWhile is_digit r = r" by (rule takeWhile_dropWhile_id)
  with Nil show ?case by simp
next
  case (Cons c d)
  then show ?case by simp
qed

lemma prefix_stops_no_digit: "prefix_stops rest \<Longrightarrow> takeWhile is_digit rest = []"
  by (cases rest) (auto simp: prefix_stops_def)

lemma dot_groups_no_digit: "prefix_stops rest \<Longrightarrow> takeWhile is_digit (dot_groups ds @ rest) = []"
  by (cases ds) (auto simp: dot_groups_def not_digit_dot prefix_stops_no_digit)

lemma dotted_groups_stop: "prefix_stops rest \<Longrightarrow> dotted_groups rest = []"
  by (cases rest) (auto simp: prefix_stops_def)

lemma dotted_groups_dot_groups:
  assumes "list_all (\<lambda>d. d \<noteq> [] \<and> list_all is_digit d) ds" "prefix_stops rest"
  shows "dotted_groups (dot_groups ds @ rest) = dot_groups ds"
  using assms(1)
proof (induction ds)
  case Nil
  then show ?case using assms(2) by (simp add: dot_groups_def dotted_groups_stop)
next
  case (Cons d ds)
  let ?X = "dot_groups ds @ rest"
  have d: "d \<noteq> []" "list_all is_digit d" using Cons.prems by auto
  have X: "takeWhile is_digit ?X = []" using assms(2) by (rule dot_groups_no_digit)
  have tw: "takeWhile is_digit (d @ ?X) = d" using d(2) X by (rule takeWhile_digits_append)
  have dw: "dropWhile is_digit (d @ ?X) = ?X" using d(2) X by (rule dropWhile_digits_append)
  have IH: "dotted_groups ?X = dot_groups ds" using Cons by simp
  have "dot_groups (d # ds) @ rest = CHR ''.'' # (d @ ?X)" by (simp add: dot_groups_def)
  then have "dotted_groups (dot_groups (d # ds) @ rest) =
      CHR ''.'' # takeWhile is_digit (d @ ?X) @ dotted_groups (dropWhile is_digit (d @ ?X))"
    using tw d(1) by simp
  also have "\<dots> = CHR ''.'' # d @ dot_groups ds" by (simp only: tw dw IH)
  also have "\<dots> = dot_groups (d # ds)" by (simp add: dot_groups_def)
  finally show ?case .
qed

lemma join_dot_groups: "join ''.'' (d # ds) = d @ dot_groups ds"
  by (induction ds arbitrary: d) (simp_all add: dot_groups_def)

lemma numeric_prefix_join:
  assumes "list_all (\<lambda>d. d \<noteq> [] \<and> list_all is_digit d) (d # ds)" "prefix_stops rest"
  shows "numeric_prefix (join ''.'' (d # ds) @ rest) = Some (join ''.'' (d # ds))"
proof -
  let ?X = "dot_groups ds @ rest"
  have d: "d \<noteq> []" "list_all is_digit d" and ds: "list_all (\<lambda>d. d \<noteq> [] \<and> list_all is_digit d) ds"
    using assms(1) by auto
  have X: "takeWhile is_digit ?X = []" using assms(2) by (rule dot_groups_no_digit)
  have tw: "takeWhile is_digit (d @ ?X) = d" using d(2) X by (rule takeWhile_digits_append)
  have dw: "dropWhile is_digit (d @ ?X) = ?X" using d(2) X by (rule dropWhile_digits_append)
  have "numeric_prefix (d @ ?X) = Some (d @ dotted_groups ?X)"
    unfolding numeric_prefix_def tw dw using d(1) by simp
  then show ?thesis
    by (simp add: join_dot_groups dotted_groups_dot_groups [OF ds assms(2)])
qed

lemma split_on_segment:
  "c \<notin> set d \<Longrightarrow> split_on c (d @ c # r) = d # split_on c r"
  by (induction d) (auto simp: Let_def)

lemma split_on_last: "c \<notin> set d \<Longrightarrow> split_on c d = [d]"
  by (induction d) (auto simp: Let_def)

lemma digits_no_dot: "list_all is_digit d \<Longrightarrow> CHR ''.'' \<notin> set d"
  using not_digit_dot by (auto simp: list_all_iff)

lemma split_on_join:
  "list_all (\<lambda>d. d \<noteq> [] \<and> list_all is_digit d) (d # ds) \<Longrightarrow>
   split_on (CHR ''.'') (join ''.'' (d # ds)) = d # ds"
proof (induction ds arbitrary: d)
  case Nil
  then show ?case by (simp add: split_on_last digits_no_dot)
next
  case (Cons e es)
  have a: "join ''.'' (d # e # es) = d @ CHR ''.'' # join ''.'' (e # es)" by simp
  have b: "CHR ''.'' \<notin> set d" using Cons.prems by (simp add: digits_no_dot)
  have c: "split_on (CHR ''.'') (join ''.'' (e # es)) = e # es"
    using Cons.prems by (intro Cons.IH) simp
  show ?case unfolding a split_on_segment [OF b] c ..
qed

text \<open>
  C2. When the text of a line is a dotted number of the segments \<open>ds\<close> (each a non-empty run
  of digits) followed by a rest that does not continue the number, the level is the one of
  the number of segments, whatever the heading sizes and the size of the line. In the example
  the line ``3.2 Data Pipeline'' has the size of rank 0 and is classified H2 all the same.
\<close>

theorem C2_numeric_prefix_level:
  assumes "ds \<noteq> []" and "list_all (\<lambda>d. d \<noteq> [] \<and> list_all is_digit d) ds"
    and "prefix_stops rest" and "l_text line = join ''.'' ds @ rest"
  shows "classify_heading_level line heading_sizes = level_of_segments (length ds)"
proof -
  from assms(1) obtain d ds' where ds: "ds = d # ds'" by (cases ds) auto
  have np: "numeric_prefix (l_text line) = Some (join ''.'' ds)"
    using numeric_prefix_join [of d ds' rest] assms(2,3,4) ds by simp
  have sp: "split_on (CHR ''.'') (join ''.'' ds) = ds"
    using split_on_join [of d ds'] assms(2) ds by simp
  show ?thesis
    by (simp add: classify_heading_level_def Let_def np sp level_of_segments_def)
qed

theorem C2_numeric_prefix_level_witness:
  "[''3'', ''2''] \<noteq> [] \<and>
   list_all (\<lambda>d. d \<noteq> [] \<and> list_all is_digit d) [''3'', ''2''] \<and>
   prefix_stops '' Data Pipeline'' \<and>
   l_text numbered_line = join ''.'' [''3'', ''2''] @ '' Data Pipeline'' \<and>
   py_index [24, 14] (l_size numbered_line) = Some 0 \<and>
   classify_heading_level numbered_line [24, 14] = H2 \<and>
   classify_heading_level numbered_line [] = H2"
proof -
  have h1: "[''3'', ''2''] \<noteq> []" by simp
  have h2: "list_all (\<lambda>d. d \<noteq> [] \<and> list_all is_digit d) [''3'', ''2'']"
    by (simp add: is_digit_def)
  have h3: "prefix_stops '' Data Pipeline''" by (simp add: prefix_stops_def is_digit_def)
  have h4: "l_text numbered_line = join ''.'' [''3'', ''2''] @ '' Data Pipeline''"
    by (simp add: numbered_line_def)
  have h5: "py_index [24, 14] (l_size numbered_line) = Some 0"
    by (simp add: numbered_line_def)
  show ?thesis
    using h1 h2 h3 h4 h5 C2_numeric_prefix_level [OF h1 h2 h3 h4, of "[24, 14]"]
      C2_numeric_prefix_level [OF h1 h2 h3 h4, of "[]"]
    by (simp add: level_of_segments_def)
qed

subsection \<open>Derivatives decide the language; the dot-leader filter\<close>

lemma nullable_iff: "nullable r \<longleftrightarrow> [] \<in> lang r"
  by (induction r) (auto intro: star_nil)

lemma star_cons:
  assumes "x \<in> star A" "x = c # w"
  shows "\<exists>u v. w = u @ v \<and> c # u \<in> A \<and> v \<in> star A"
  using assms
proof (induction rule: star.induct)
  case star_nil
  then show ?case by simp
next
  case (star_step u v)
  show ?case
  proof (cases u)
    case Nil
    with star_step show ?thesis by simp
  next
    case (Cons a u')
    with star_step.prems have "a = c" "w = u' @ v" by simp_all
    with Cons star_step.hyps show ?thesis by blast
  qed
qed

lemma star_cons_iff:
  "c # w \<in> star A \<longleftrightarrow> (\<exists>u v. w = u @ v \<and> c # u \<in> A \<and> v \<in> star A)"
proof
  assume "c # w \<in> star A"
  then show "\<exists>u v. w = u @ v \<and> c # u \<in> A \<and> v \<in> star A"
    using star_cons by blast
next
  assume "\<exists>u v. w = u @ v \<and> c # u \<in> A \<and> v \<in> star A"
  then obtain u v where "w = u @ v" "c # u \<in> A" "v \<in> star A" by blast
  then show "c # w \<in> star A"
    using star_step [of "c # u" A v] by simp
qed

lemma lang_deriv: "w \<in> lang (deriv c r) \<longleftrightarrow> c # w \<in> lang r"
proof (induction r arbitrary: w)
  case (Then r s)
  show ?case
  proof
    assume "w \<in> lang (deriv c (Then r s))"
    then consider (left) u v where "w = u @ v" "u \<in> lang (deriv c r)" "v \<in> lang s"
      | (right) "nullable r" "w \<in> lang (deriv c s)"
      by (auto split: if_splits)
    then show "c # w \<in> lang (Then r s)"
    proof cases
      case left
      then have "c # u \<in> lang r" using Then.IH(1) by simp
      with left show ?thesis by (auto intro: exI [of _ "c # u"])
    next
      case right
      then have "[] \<in> lang r" "c # w \<in> lang s" using Then.IH(2) nullable_iff by simp_all
      then show ?thesis by (auto intro: exI [of _ "[]"])
    qed
  next
    assume "c # w \<in> lang (Then r s)"
    then obtain u v where uv: "c # w = u @ v" "u \<in> lang r" "v \<in> lang s" by auto
    show "w \<in> lang (deriv c (Then r s))"
    proof (cases u)
      case Nil
      with uv have "nullable r" "w \<in> lang (deriv c s)"
        using Then.IH(2) nullable_iff by simp_all
      then show ?thesis by simp
    next
      case (Cons a u')
      with uv have "a = c" "w = u' @ v" by simp_all
      with Cons uv have "u' \<in> lang (deriv c r)" using Then.IH(1) by simp
      with \<open>w = u' @ v\<close> uv(3) show ?thesis by auto
    qed
  qed
next
  case (Rep r)
  show ?case
    by (auto simp: star_cons_iff Rep.IH)
qed auto

lemma accepts_iff: "accepts r s \<longleftrightarrow> s \<in> lang r"
  by (induction s arbitrary: r) (simp_all add: nullable_iff lang_deriv)

lemma accepts_prefix_iff: "accepts_prefix r s \<longleftrightarrow> (\<exists>u v. s = u @ v \<and> u \<in> lang r)"
proof (induction s arbitrary: r)
  case Nil
  then show ?case by (simp add: nullable_iff)
next
  case (Cons c cs)
  have "accepts_prefix r (c # cs) \<longleftrightarrow>
          [] \<in> lang r \<or> (\<exists>u v. cs = u @ v \<and> c # u \<in> lang r)"
    by (simp add: nullable_iff Cons.IH lang_deriv)
  also have "\<dots> \<longleftrightarrow> (\<exists>u v. c # cs = u @ v \<and> u \<in> lang r)"
    by (auto simp: Cons_eq_append_conv)
  finally show ?case .
qed

lemma re_search_suffix: "re_match p t \<Longrightarrow> re_search p (before @ t)"
proof (induction before)
  case Nil
  then show ?case by (cases t) simp_all
next
  case (Cons c cs)
  then show ?case by simp
qed

lemma lang_Rep_Cls: "list_all P xs \<Longrightarrow> xs \<in> lang (Rep (Cls P))"
proof (induction xs)
  case Nil
  then show ?case by (simp add: star_nil)
next
  case (Cons x xs)
  then have "[x] \<in> lang (Cls P)" "xs \<in> star (lang (Cls P))" by simp_all
  then have "[x] @ xs \<in> star (lang (Cls P))" by (rule star_step)
  then show ?case by simp
qed

lemma lang_plus_Cls: "xs \<noteq> [] \<Longrightarrow> list_all P xs \<Longrightarrow> xs \<in> lang (rx_plus (Cls P))"
proof (cases xs)
  case Nil
  assume "xs \<noteq> []"
  with Nil show ?thesis by simp
next
  case (Cons x ys)
  assume "list_all P xs"
  with Cons have "P x" "ys \<in> lang (Rep (Cls P))" using lang_Rep_Cls by auto
  then have "[x] @ ys \<in> lang (rx_plus (Cls P))"
    unfolding rx_plus_def lang.simps by blast
  with Cons show ?thesis by simp
qed

lemma lang_at_least3_Cls:
  assumes "3 \<le> length xs" "list_all P xs"
  shows "xs \<in> lang (at_least3 (Cls P))"
proof -
  from assms(1) obtain a b c ys where xs: "xs = a # b # c # ys"
    by (cases xs; cases "tl xs"; cases "tl (tl xs)") auto
  with assms(2) have "P a" "P b" "P c" "ys \<in> lang (Rep (Cls P))"
    using lang_Rep_Cls by auto
  then have "[a] @ [b] @ [c] @ ys \<in> lang (at_least3 (Cls P))"
    unfolding at_least3_def lang.simps by blast
  with xs show ?thesis by simp
qed

lemma lang_ThenI: "u \<in> lang r \<Longrightarrow> v \<in> lang s \<Longrightarrow> u @ v \<in> lang (Then r s)"
  by auto

lemma dot_leader_shape_search:
  assumes "dot_leader_shape s"
  shows "re_search dot_leader s"
proof -
  from assms obtain before spaces dots spaces2 digits where
    s: "s = before @ spaces @ dots @ spaces2 @ digits"
    and sp: "spaces \<noteq> []" "list_all is_space spaces"
    and dots: "3 \<le> length dots" "list_all (\<lambda>c. c = CHR ''.'') dots"
    and sp2: "list_all is_space spaces2"
    and dg: "digits \<noteq> []" "list_all is_digit digits"
    unfolding dot_leader_shape_def by blast
  from sp(1) obtain sps w where spaces: "spaces = sps @ [w]"
    by (cases spaces rule: rev_cases) auto
  with sp(2) have w: "[w] \<in> lang (Cls is_space)" by simp
  let ?r = "Then (Cls is_space)
              (Then (at_least3 (Cls (\<lambda>c. c = CHR ''.'')))
                (Then (Rep (Cls is_space)) (rx_plus (Cls is_digit))))"
  have t1: "spaces2 @ digits \<in> lang (Then (Rep (Cls is_space)) (rx_plus (Cls is_digit)))"
    by (intro lang_ThenI lang_Rep_Cls lang_plus_Cls sp2 dg)
  have t2: "dots @ spaces2 @ digits \<in> lang (Then (at_least3 (Cls (\<lambda>c. c = CHR ''.'')))
                (Then (Rep (Cls is_space)) (rx_plus (Cls is_digit))))"
    by (intro lang_ThenI lang_at_least3_Cls dots t1)
  have t3: "[w] @ dots @ spaces2 @ digits \<in> lang ?r"
    by (intro lang_ThenI w t2)
  have t4: "[] \<in> lang dollar" by (simp add: dollar_def)
  have "([w] @ dots @ spaces2 @ digits) @ [] \<in> lang (Then ?r dollar)"
    by (intro lang_ThenI t3 t4)
  then have "re_match dot_leader ([w] @ dots @ spaces2 @ digits)"
    by (simp add: dot_leader_def accepts_iff del: lang.simps)
  then have "re_search dot_leader ((before @ sps) @ [w] @ dots @ spaces2 @ digits)"
    by (rule re_search_suffix)
  then show ?thesis by (simp add: s spaces)
qed

lemma keep_line_ok:
  "\<forall>l \<in> set acc. kept_ok hf l \<Longrightarrow> \<forall>l \<in> set (keep_line hf n line acc). kept_ok hf l"
  by (auto simp: keep_line_def kept_ok_def Let_def split: list.splits)

lemma fold_keep_line_ok:
  "\<forall>l \<in> set acc. kept_ok hf l \<Longrightarrow> \<forall>l \<in> set (fold (keep_line hf n) ls acc). kept_ok hf l"
proof (induction ls arbitrary: acc)
  case Nil
  then show ?case by simp
next
  case (Cons x xs)
  have "\<forall>l \<in> set (keep_line hf n x acc). kept_ok hf l"
    using Cons.prems by (rule keep_line_ok)
  then have "\<forall>l \<in> set (fold (keep_line hf n) xs (keep_line hf n x acc)). kept_ok hf l"
    by (rule Cons.IH)
  then show ?case by simp
qed

lemma keep_block_ok:
  "\<forall>l \<in> set acc. kept_ok hf l \<Longrightarrow> \<forall>l \<in> set (keep_block hf n b acc). kept_ok hf l"
  by (cases b) (simp_all add: keep_block_def fold_keep_line_ok)

lemma fold_keep_block_ok:
  "\<forall>l \<in> set acc. kept_ok hf l \<Longrightarrow> \<forall>l \<in> set (fold (keep_block hf n) bs acc). kept_ok hf l"
proof (induction bs arbitrary: acc)
  case Nil
  then show ?case by simp
next
  case (Cons x xs)
  have "\<forall>l \<in> set (keep_block hf n x acc). kept_ok hf l"
    using Cons.prems by (rule keep_block_ok)
  then have "\<forall>l \<in> set (fold (keep_block hf n) xs (keep_block hf n x acc)). kept_ok hf l"
    by (rule Cons.IH)
  then show ?case by simp
qed

lemma keep_pages_ok:
  "keep_pages hf n ps acc = Inr out \<Longrightarrow> \<forall>l \<in> set acc. kept_ok hf l \<Longrightarrow>
   \<forall>l \<in> set out. kept_ok hf l"
proof (induction ps arbitrary: n acc)
  case Nil
  then show ?case by simp
next
  case (Cons pg ps)
  from Cons.prems(1) obtain blocks where
    b: "p_blocks pg = Inr blocks"
    and run: "keep_pages hf (n + 1) ps (fold (keep_block hf n) blocks acc) = Inr out"
    by (cases "p_blocks pg") simp_all
  have "\<forall>l \<in> set (fold (keep_block hf n) blocks acc). kept_ok hf l"
    using Cons.prems(2) by (rule fold_keep_block_ok)
  with run show ?case by (rule Cons.IH)
qed

lemma extract_text_lines_kept:
  assumes "l \<in> set (extract_text_lines fs p)"
  shows "\<exists>hf. kept_ok hf l"
proof (cases "extract_text_lines_try fs p")
  case (Inl e)
  with assms show ?thesis by (simp add: extract_text_lines_def)
next
  case (Inr out)
  with assms have l: "l \<in> set out" by (simp add: extract_text_lines_def)
  show ?thesis
  proof (cases "fs p")
    case Missing
    with Inr l show ?thesis by (simp add: extract_text_lines_try_def)
  next
    case Broken
    with Inr show ?thesis by (simp add: extract_text_lines_try_def)
  next
    case (Pdf doc)
    show ?thesis
    proof (cases "identify_headers_and_footers doc")
      case (Inl e)
      with Pdf Inr l show ?thesis
        by (auto simp: extract_text_lines_try_def split: if_splits)
    next
      case hf: (Inr hf)
      with Pdf Inr l have "doc = [] \<and> out = [] \<or> keep_pages hf 0 doc [] = Inr out"
        by (auto simp: extract_text_lines_try_def split: if_splits)
      with l have "keep_pages hf 0 doc [] = Inr out" by auto
      then have "\<forall>l \<in> set out. kept_ok hf l" by (rule keep_pages_ok) simp
      with l show ?thesis by blast
    qed
  qed
qed

lemma outline_inputs_exist: "\<exists>t b hs. outline_inputs ls t b hs"
proof -
  obtain t where "extract_title ls = Inr t" using extract_title_total by blast
  moreover obtain sz where "analyze_font_styles ls = Inr sz"
    using analyze_font_styles_total by blast
  moreover obtain b hs where "fallback_sizes ls sz = Inr (b, hs)"
    using fallback_sizes_total by blast
  ultimately show ?thesis unfolding outline_inputs_def by blast
qed

lemma outline_entry_from_line:
  assumes "extract_outline fs p = Inr r" "e \<in> set (outline r)"
  shows "\<exists>l \<in> set (extract_text_lines fs p). e_text e = l_text l \<and> e_page e = l_page l"
proof -
  obtain t b hs where inp: "outline_inputs (extract_text_lines fs p) t b hs"
    using outline_inputs_exist by blast
  let ?src = "first_occurrences line_key (filter (qualifies t b) (extract_text_lines fs p))"
  have "outline r = sort_key e_page (map (mk_entry hs) ?src)"
    by (rule outline_of_result_lines [OF inp assms(1)])
  with assms(2) obtain l where l: "l \<in> set ?src" "e = mk_entry hs l" by auto
  have "set ?src \<subseteq> set (filter (qualifies t b) (extract_text_lines fs p))"
    by (rule set_first_occurrences)
  with l(1) have "l \<in> set (extract_text_lines fs p)" by auto
  with l(2) show ?thesis by (auto simp: mk_entry_def)
qed

text \<open>
  C8. No cleaned line has a text of the dot-leader shape, and so no entry of a returned outline
  has one. In the example ``Contents ..... 42'' has the shape and is dropped from its
  document.
\<close>

theorem C8_dot_leader_lines_dropped:
  "(\<forall>l \<in> set (extract_text_lines fs p). \<not> dot_leader_shape (l_text l)) \<and>
   (\<forall>r. extract_outline fs p = Inr r \<longrightarrow>
      (\<forall>e \<in> set (outline r). \<not> dot_leader_shape (e_text e)))"
proof -
  have lines: "\<not> dot_leader_shape (l_text l)" if "l \<in> set (extract_text_lines fs p)" for l
  proof -
    from that obtain hf where "kept_ok hf l" using extract_text_lines_kept by blast
    then have "\<not> re_search dot_leader (l_text l)" by (simp add: kept_ok_def)
    then show ?thesis using dot_leader_shape_search by blast
  qed
  have entries: "\<not> dot_leader_shape (e_text e)"
    if "extract_outline fs p = Inr r" "e \<in> set (outline r)" for r e
  proof -
    from that obtain l where "l \<in> set (extract_text_lines fs p)" "e_text e = l_text l"
      using outline_entry_from_line by blast
    then show ?thesis using lines by simp
  qed
  from lines entries show ?thesis by blast
qed

lemma dot_leader_shape_example: "dot_leader_shape ''Contents ..... 42''"
proof -
  have "''Contents ..... 42'' = ''Contents'' @ '' '' @ ''.....'' @ '' '' @ ''42''" by simp
  moreover have "list_all is_space '' ''" by (simp add: is_space_def)
  moreover have "list_all is_digit ''42''" by (simp add: is_digit_def)
  ultimately show ?thesis
    unfolding dot_leader_shape_def
    by (intro exI [of _ "''Contents''"] exI [of _ "'' ''"] exI [of _ "''.....''"]
        exI [of _ "''42''"]) simp
qed

theorem C8_dot_leader_lines_dropped_witness:
  "dot_leader_shape ''Contents ..... 42'' \<and>
   extract_text_lines filtered_fs ''filtered.pdf'' = [] \<and>
   hd example_lines \<in> set (extract_text_lines example_fs ''report.pdf'') \<and>
   \<not> dot_leader_shape (l_text (hd example_lines)) \<and>
   hd example_outline \<in> set example_outline \<and>
   \<not> dot_leader_shape (e_text (hd example_outline))"
proof -
  have h0: "extract_text_lines filtered_fs ''filtered.pdf'' = []" by code_simp
  have h1: "hd example_lines \<in> set (extract_text_lines example_fs ''report.pdf'')"
    unfolding example_text_lines by (simp add: example_lines_def)
  have h2: "hd example_outline \<in> set example_outline" by (simp add: example_outline_def)
  show ?thesis
    using C8_dot_leader_lines_dropped [of example_fs "''report.pdf''"]
      h0 h1 h2 example_result dot_leader_shape_example
    by auto
qed

subsection \<open>Header and footer detection\<close>

lemma map_of_bump: "map_of (bump k d) = (map_of d)(k \<mapsto> count_of d k + 1)"
  by (induction k d rule: bump.induct) (auto simp: count_of_def fun_upd_twist)

lemma count_of_bump: "count_of (bump k d) k' = (if k' = k then count_of d k + 1 else count_of d k')"
  by (simp add: count_of_def map_of_bump)

lemma keys_bump: "set (map fst (bump k d)) = insert k (set (map fst d))"
  by (induction k d rule: bump.induct) auto

lemma distinct_bump: "distinct (map fst d) \<Longrightarrow> distinct (map fst (bump k d))"
  by (induction k d rule: bump.induct) (auto simp: keys_bump [simplified])

lemma count_of_fold_bump:
  "count_of (fold bump xs d) t = count_of d t + length (filter (\<lambda>x. x = t) xs)"
  by (induction xs arbitrary: d) (auto simp: count_of_bump)

lemma distinct_fold_bump: "distinct (map fst d) \<Longrightarrow> distinct (map fst (fold bump xs d))"
  by (induction xs arbitrary: d) (auto simp: distinct_bump)

lemma add_common_iff:
  "t \<in> add_common thr items S \<longleftrightarrow> t \<in> S \<or> (\<exists>c. (t, c) \<in> set items \<and> thr \<le> c)"
  unfolding add_common_def
proof (induction items arbitrary: S)
  case Nil
  then show ?case by simp
next
  case (Cons x xs)
  obtain a b where x: "x = (a, b)" by (cases x)
  show ?case
  proof (cases "thr \<le> b")
    case True
    then show ?thesis using Cons.IH [of "insert a S"] by (auto simp: x)
  next
    case False
    then show ?thesis using Cons.IH [of S] by (auto simp: x)
  qed
qed

lemma add_common_count:
  assumes "distinct (map fst items)" "0 < thr"
  shows "t \<in> add_common thr items S \<longleftrightarrow> t \<in> S \<or> thr \<le> count_of items t"
proof -
  have "(\<exists>c. (t, c) \<in> set items \<and> thr \<le> c) \<longleftrightarrow> thr \<le> count_of items t"
  proof (cases "map_of items t")
    case None
    then have "\<And>c. (t, c) \<notin> set items" by (metis map_of_SomeD weak_map_of_SomeI not_Some_eq)
    with None assms(2) show ?thesis by (simp add: count_of_def)
  next
    case (Some n)
    then have "\<And>c. (t, c) \<in> set items \<longleftrightarrow> c = n"
      using assms(1) by (metis map_of_SomeD map_of_is_SomeI option.inject)
    with Some show ?thesis by (simp add: count_of_def)
  qed
  then show ?thesis by (simp add: add_common_iff)
qed

lemma count_line_eq:
  "count_line hm fm line (hc, fc) =
     (if 4 \<le> length (line_text_of line) \<and> fst (snd (r_bbox line)) < hm
      then (bump (line_text_of line) hc, fc)
      else if 4 \<le> length (line_text_of line) \<and> \<not> fst (snd (r_bbox line)) < hm \<and>
              fm < fst (snd (r_bbox line))
      then (hc, bump (line_text_of line) fc)
      else (hc, fc))"
  by (auto simp: count_line_def Let_def)

lemma fold_count_line:
  "fold (count_line hm fm) ls (hc, fc) =
     (fold bump (map line_text_of
        (filter (\<lambda>l. 4 \<le> length (line_text_of l) \<and> fst (snd (r_bbox l)) < hm) ls)) hc,
      fold bump (map line_text_of
        (filter (\<lambda>l. 4 \<le> length (line_text_of l) \<and> \<not> fst (snd (r_bbox l)) < hm \<and>
                     fm < fst (snd (r_bbox l))) ls)) fc)"
proof (induction ls arbitrary: hc fc)
  case Nil
  then show ?case by simp
next
  case (Cons l ls)
  show ?case
    by (simp only: fold_Cons comp_apply count_line_eq [of hm fm l hc fc])
       (simp add: Cons.IH)
qed

lemma fold_count_block:
  "fold (count_block hm fm) bs cands =
     fold (count_line hm fm) (concat (map block_lines bs)) cands"
proof (induction bs arbitrary: cands)
  case Nil
  then show ?case by simp
next
  case (Cons b bs)
  have step: "count_block hm fm b cands = fold (count_line hm fm) (block_lines b) cands"
    by (cases b) (simp_all add: count_block_def block_lines_def)
  show ?case
    by (simp add: step Cons.IH)
qed

lemma count_pages_eq:
  "count_pages hm fm ps cands = Inr out \<Longrightarrow>
   out = fold (count_line hm fm) (concat (map page_lines ps)) cands"
proof (induction ps arbitrary: cands)
  case Nil
  then show ?case by simp
next
  case (Cons pg ps)
  from Cons.prems obtain blocks where
    b: "p_blocks pg = Inr blocks"
    and run: "count_pages hm fm ps (fold (count_block hm fm) blocks cands) = Inr out"
    by (cases "p_blocks pg") simp_all
  have "out = fold (count_line hm fm) (concat (map page_lines ps))
                (fold (count_block hm fm) blocks cands)"
    using run by (rule Cons.IH)
  moreover have "page_lines pg = concat (map block_lines blocks)"
    by (simp add: page_lines_def b)
  ultimately show ?case
    by (simp add: fold_count_block)
qed

lemma length_filter_map_filter:
  "length (filter (\<lambda>x. x = t) (map f (filter (\<lambda>l. 4 \<le> length (f l) \<and> Z l) ls))) =
     (if 4 \<le> length t then length (filter (\<lambda>l. f l = t \<and> Z l) ls) else 0)"
  by (induction ls) auto

lemma threshold_pos: "0 < threshold n"
  by (auto simp: threshold_def max_def)

lemma identify_headers_and_footers_iff:
  assumes "identify_headers_and_footers doc = Inr S" "doc \<noteq> []"
  shows "t \<in> S \<longleftrightarrow>
           4 \<le> length t \<and>
           (threshold (length doc) \<le> header_occurrences doc t \<or>
            threshold (length doc) \<le> footer_occurrences doc t)"
proof -
  from assms(2) obtain pg rest where doc: "doc = pg # rest" by (cases doc) auto
  let ?hm = "float_mul (p_height pg) float_0_15"
  let ?fm = "float_mul (p_height pg) float_0_85"
  let ?thr = "threshold (length doc)"
  from assms(1) obtain hc fc where
    run: "count_pages ?hm ?fm doc ([], []) = Inr (hc, fc)"
    and S: "S = add_common ?thr fc (add_common ?thr hc {})"
    unfolding identify_headers_and_footers_def doc
    by (auto simp: Let_def split: sum.splits)
  let ?H = "filter (\<lambda>l. 4 \<le> length (line_text_of l) \<and> fst (snd (r_bbox l)) < ?hm) (doc_lines doc)"
  let ?F = "filter (\<lambda>l. 4 \<le> length (line_text_of l) \<and> \<not> fst (snd (r_bbox l)) < ?hm \<and>
                     ?fm < fst (snd (r_bbox l))) (doc_lines doc)"
  have "(hc, fc) = fold (count_line ?hm ?fm) (doc_lines doc) ([], [])"
    using count_pages_eq [OF run] by (simp add: doc_lines_def)
  then have hc: "hc = fold bump (map line_text_of ?H) []"
    and fc: "fc = fold bump (map line_text_of ?F) []"
    by (simp_all add: fold_count_line)
  have dh: "distinct (map fst hc)" unfolding hc by (rule distinct_fold_bump) simp
  have df: "distinct (map fst fc)" unfolding fc by (rule distinct_fold_bump) simp
  have ch: "count_of hc t = (if 4 \<le> length t then header_occurrences doc t else 0)"
    unfolding hc count_of_fold_bump length_filter_map_filter
    by (simp add: count_of_def header_occurrences_def in_header_zone_def doc)
  have cf: "count_of fc t = (if 4 \<le> length t then footer_occurrences doc t else 0)"
    unfolding fc count_of_fold_bump length_filter_map_filter
    by (simp add: count_of_def footer_occurrences_def in_footer_zone_def in_header_zone_def doc)
  have "t \<in> S \<longleftrightarrow> ?thr \<le> count_of hc t \<or> ?thr \<le> count_of fc t"
    unfolding S
    by (simp add: add_common_count [OF df threshold_pos] add_common_count [OF dh threshold_pos]
        disj_commute)
  then show ?thesis
    using threshold_pos [of "length doc"] by (auto simp: ch cf)
qed

lemma identify_headers_and_footers_empty: "identify_headers_and_footers [] = Inr {}"
  by (simp add: identify_headers_and_footers_def)

lemma float_mul_examples:
  "float_mul 792 float_0_15 = 8359806808306483 / 70368744177664"
  "float_mul 792 float_0_85 = 5921529822550425 / 8796093022208"
  "float_mul 800 float_0_15 = 120"
  "float_mul 800 float_0_85 = 680"
  by code_simp+

lemma margin_example_set: "identify_headers_and_footers margin_doc = Inr {''Line at 673.2''}"
  by code_simp

lemma margin_example_counts:
  "header_occurrences margin_doc ''Line at 118.8'' = 0"
  "footer_occurrences margin_doc ''Line at 118.8'' = 0"
  "header_occurrences margin_doc ''Line at 673.2'' = 0"
  "footer_occurrences margin_doc ''Line at 673.2'' = 1"
  by code_simp+

text \<open>
  C7. When the detector returns the set \<open>S\<close>: a document of no page gives the empty set;
  a text of at least 4 characters is in \<open>S\<close> exactly when its number of occurrences in the
  header zone, or in the footer zone, is at least \<open>max (n div 2) 2\<close> for a document of
  \<open>n > 2\<close> pages and at least 1 otherwise; a shorter text is never in \<open>S\<close>. The zones are
  those of the margins that the source computes as float products. In the first example a
  footer on 5 of 6 pages is in the set and a footer on one page is not; in the second a line
  that starts exactly at the top margin is in no zone and is not in the set.
\<close>

theorem C7_suppression_threshold:
  assumes "identify_headers_and_footers doc = Inr S"
  shows "(doc = [] \<longrightarrow> S = {}) \<and>
         (doc \<noteq> [] \<and> 4 \<le> length t \<longrightarrow>
            (t \<in> S \<longleftrightarrow>
               (if 2 < length doc then max (length doc div 2) 2 else 1)
                  \<le> header_occurrences doc t \<or>
               (if 2 < length doc then max (length doc div 2) 2 else 1)
                  \<le> footer_occurrences doc t)) \<and>
         (length t < 4 \<longrightarrow> t \<notin> S)"
proof (cases "doc = []")
  case True
  with assms have "S = {}" by (simp add: identify_headers_and_footers_empty)
  with True show ?thesis by simp
next
  case False
  show ?thesis
    using False identify_headers_and_footers_iff [OF assms False, of t]
    by (auto simp: threshold_def)
qed

lemma footer_example_set: "identify_headers_and_footers footer_doc = Inr {''Confidential''}"
  by code_simp

lemma footer_example_counts:
  "footer_occurrences footer_doc ''Confidential'' = 5"
  "header_occurrences footer_doc ''Confidential'' = 0"
  "footer_occurrences footer_doc ''Page 6'' = 1"
  "header_occurrences footer_doc ''Page 6'' = 0"
  by code_simp+

theorem C7_suppression_threshold_witness:
  "identify_headers_and_footers footer_doc = Inr {''Confidential''} \<and>
   length footer_doc = 6 \<and>
   footer_occurrences footer_doc ''Confidential'' = 5 \<and>
   ''Confidential'' \<in> {''Confidential''} \<and>
   footer_occurrences footer_doc ''Page 6'' = 1 \<and>
   header_occurrences footer_doc ''Page 6'' = 0 \<and>
   ''Page 6'' \<notin> {''Confidential''} \<and>
   identify_headers_and_footers [] = Inr {} \<and>
   identify_headers_and_footers margin_doc = Inr {''Line at 673.2''} \<and>
   length margin_doc = 1 \<and>
   header_occurrences margin_doc ''Line at 118.8'' = 0 \<and>
   footer_occurrences margin_doc ''Line at 118.8'' = 0 \<and>
   ''Line at 118.8'' \<notin> {''Line at 673.2''} \<and>
   footer_occurrences margin_doc ''Line at 673.2'' = 1 \<and>
   ''Line at 673.2'' \<in> {''Line at 673.2''}"
proof -
  have len: "length footer_doc = 6" by (simp add: footer_doc_def)
  have len1: "length margin_doc = 1" by (simp add: margin_doc_def)
  have e: "identify_headers_and_footers [] = Inr {}"
    by (simp add: identify_headers_and_footers_def)
  show ?thesis
    using C7_suppression_threshold [OF footer_example_set, of "''Confidential''"]
      C7_suppression_threshold [OF footer_example_set, of "''Page 6''"]
      C7_suppression_threshold [OF e, of "''Page 6''"]
      C7_suppression_threshold [OF margin_example_set, of "''Line at 118.8''"]
      C7_suppression_threshold [OF margin_example_set, of "''Line at 673.2''"]
      footer_example_set footer_example_counts len len1 e
      margin_example_set margin_example_counts
    by simp
qed

subsection \<open>The scan for the dotted number and its pattern\<close>

lemma takeWhile_all_digits: "list_all is_digit (takeWhile is_digit s)"
  by (induction s) auto

lemma star_Cls_all: "w \<in> star (lang (Cls P)) \<Longrightarrow> list_all P w"
  by (induction rule: star.induct) auto

lemma lang_plus_Cls_iff: "w \<in> lang (rx_plus (Cls P)) \<longleftrightarrow> w \<noteq> [] \<and> list_all P w"
proof
  assume "w \<in> lang (rx_plus (Cls P))"
  then obtain c v where "w = [c] @ v" "P c" "v \<in> star (lang (Cls P))"
    unfolding rx_plus_def by auto
  then show "w \<noteq> [] \<and> list_all P w" using star_Cls_all by auto
next
  assume "w \<noteq> [] \<and> list_all P w"
  then show "w \<in> lang (rx_plus (Cls P))" by (simp add: lang_plus_Cls)
qed

lemma dot_group_iff:
  "x \<in> lang (Then (Cls (\<lambda>c. c = CHR ''.'')) (rx_plus (Cls is_digit))) \<longleftrightarrow>
     (\<exists>e. x = CHR ''.'' # e \<and> e \<noteq> [] \<and> list_all is_digit e)"
proof -
  have "lang (Then (Cls (\<lambda>c. c = CHR ''.'')) (rx_plus (Cls is_digit))) =
          {[CHR ''.''] @ e | e. e \<in> lang (rx_plus (Cls is_digit))}"
    by auto
  then show ?thesis by (auto simp: lang_plus_Cls_iff simp del: lang.simps)
qed

lemma dotted_groups_lang:
  "dotted_groups s \<in> star (lang (Then (Cls (\<lambda>c. c = CHR ''.'')) (rx_plus (Cls is_digit))))"
proof (induction s rule: dotted_groups.induct)
  case 1
  then show ?case by (simp add: star_nil)
next
  case (2 c cs)
  let ?G = "lang (Then (Cls (\<lambda>c. c = CHR ''.'')) (rx_plus (Cls is_digit)))"
  show ?case
  proof (cases "c = CHR ''.'' \<and> takeWhile is_digit cs \<noteq> []")
    case True
    then have "CHR ''.'' # takeWhile is_digit cs \<in> ?G"
      unfolding dot_group_iff using takeWhile_all_digits by blast
    moreover have "dotted_groups (dropWhile is_digit cs) \<in> star ?G"
      using True by (intro "2.IH") simp_all
    ultimately have "(CHR ''.'' # takeWhile is_digit cs) @ dotted_groups (dropWhile is_digit cs)
        \<in> star ?G"
      by (rule star_step)
    with True show ?thesis by (simp del: lang.simps)
  next
    case False
    then show ?thesis by (auto simp: star_nil simp del: lang.simps)
  qed
qed

lemma prefix_takeWhile_dropWhile:
  assumes "prefix x (dropWhile P cs)"
  shows "prefix (takeWhile P cs @ x) cs"
proof -
  from assms have "prefix (takeWhile P cs @ x) (takeWhile P cs @ dropWhile P cs)"
    by (simp only: same_prefix_prefix)
  then show ?thesis by (simp only: takeWhile_dropWhile_id)
qed

lemma dotted_groups_prefix: "prefix (dotted_groups s) s"
proof (induction s rule: dotted_groups.induct)
  case 1
  then show ?case by simp
next
  case (2 c cs)
  show ?case
  proof (cases "c = CHR ''.'' \<and> takeWhile is_digit cs \<noteq> []")
    case True
    then have "prefix (dotted_groups (dropWhile is_digit cs)) (dropWhile is_digit cs)"
      by (intro "2.IH") simp_all
    then have "prefix (takeWhile is_digit cs @ dotted_groups (dropWhile is_digit cs)) cs"
      by (rule prefix_takeWhile_dropWhile)
    with True show ?thesis by simp
  next
    case False
    then show ?thesis by auto
  qed
qed

lemma numeric_prefix_lang:
  assumes "numeric_prefix s = Some g"
  shows "g \<in> lang dotted_number \<and> prefix g s"
proof -
  let ?d = "takeWhile is_digit s"
  let ?r = "dropWhile is_digit s"
  from assms have d: "?d \<noteq> []" and g: "g = ?d @ dotted_groups ?r"
    by (auto simp: numeric_prefix_def split: if_splits)
  have "?d \<in> lang (rx_plus (Cls is_digit))"
    using d takeWhile_all_digits by (simp add: lang_plus_Cls_iff)
  moreover have "dotted_groups ?r \<in>
      lang (Rep (Then (Cls (\<lambda>c. c = CHR ''.'')) (rx_plus (Cls is_digit))))"
    using dotted_groups_lang by simp
  ultimately have "?d @ dotted_groups ?r \<in> lang dotted_number"
    unfolding dotted_number_def by (intro lang_ThenI)
  moreover have "prefix (?d @ dotted_groups ?r) s"
    using dotted_groups_prefix by (rule prefix_takeWhile_dropWhile)
  ultimately show ?thesis by (simp add: g)
qed

lemma numeric_prefix_match: "re_match (Pat dotted_number) s \<longleftrightarrow> numeric_prefix s \<noteq> None"
proof
  assume "re_match (Pat dotted_number) s"
  then obtain u v where uv: "s = u @ v" "u \<in> lang dotted_number"
    by (auto simp: accepts_prefix_iff simp del: lang.simps)
  then obtain d w where "u = d @ w" "d \<in> lang (rx_plus (Cls is_digit))"
    unfolding dotted_number_def by auto
  then obtain c d' where "u = c # d' @ w" "is_digit c"
    by (cases d) (auto simp: lang_plus_Cls_iff simp del: lang.simps)
  with uv(1) have "takeWhile is_digit s \<noteq> []" by simp
  then show "numeric_prefix s \<noteq> None" by (simp add: numeric_prefix_def)
next
  assume "numeric_prefix s \<noteq> None"
  then obtain g where "numeric_prefix s = Some g" by auto
  then have "g \<in> lang dotted_number" "prefix g s" using numeric_prefix_lang by simp_all
  then show "re_match (Pat dotted_number) s"
    by (auto simp: accepts_prefix_iff prefix_def simp del: lang.simps)
qed

lemma star_groups_start:
  "w \<in> star (lang (Then (Cls (\<lambda>c. c = CHR ''.'')) (rx_plus (Cls is_digit)))) \<Longrightarrow>
   w = [] \<or> hd w = CHR ''.''"
proof (induction rule: star.induct)
  case star_nil
  then show ?case by simp
next
  case (star_step x v)
  from star_step.hyps(1) obtain e where "x = CHR ''.'' # e"
    unfolding dot_group_iff by blast
  then show ?case by simp
qed

lemma digits_then_rest:
  assumes "list_all is_digit d" "prefix (d @ w) s" "w = [] \<or> hd w = CHR ''.''"
  shows "prefix d (takeWhile is_digit s) \<and>
         (w \<noteq> [] \<longrightarrow> d = takeWhile is_digit s \<and> prefix w (dropWhile is_digit s))"
  using assms
proof (induction d arbitrary: s)
  case Nil
  show ?case
  proof (cases w)
    case Nil
    then show ?thesis by simp
  next
    case (Cons a w')
    with Nil.prems(3) have a: "a = CHR ''.''" by simp
    from Nil.prems(2) Cons obtain v where "s = a # w' @ v" by (auto simp: prefix_def)
    with a Cons Nil.prems(2) show ?thesis by (simp add: is_digit_def)
  qed
next
  case (Cons c d)
  from Cons.prems(2) obtain s' where s: "s = c # s'" and p: "prefix (d @ w) s'"
    by (cases s) auto
  from Cons.prems(1) have c: "is_digit c" and d: "list_all is_digit d" by simp_all
  from Cons.IH [OF d p Cons.prems(3)] show ?case by (simp add: s c)
qed

lemma star_groups_prefix:
  assumes "w \<in> star (lang (Then (Cls (\<lambda>c. c = CHR ''.'')) (rx_plus (Cls is_digit))))"
    and "prefix w r"
  shows "prefix w (dotted_groups r)"
  using assms
proof (induction arbitrary: r rule: star.induct)
  case star_nil
  then show ?case by simp
next
  case (star_step x v)
  from star_step.hyps(1) obtain e where
    x: "x = CHR ''.'' # e" and e: "e \<noteq> []" "list_all is_digit e"
    unfolding dot_group_iff by blast
  from star_step.prems x obtain cs where r: "r = CHR ''.'' # cs" and p: "prefix (e @ v) cs"
    by (cases r) auto
  have v: "v = [] \<or> hd v = CHR ''.''" using star_step.hyps(2) by (rule star_groups_start)
  from digits_then_rest [OF e(2) p v] have
    pe: "prefix e (takeWhile is_digit cs)"
    and rest: "v \<noteq> [] \<longrightarrow> e = takeWhile is_digit cs \<and> prefix v (dropWhile is_digit cs)"
    by simp_all
  from pe e(1) have ne: "takeWhile is_digit cs \<noteq> []" by auto
  have dg: "dotted_groups r =
      CHR ''.'' # takeWhile is_digit cs @ dotted_groups (dropWhile is_digit cs)"
    using ne by (simp add: r)
  show ?case
  proof (cases "v = []")
    case True
    from pe have "prefix e (takeWhile is_digit cs @ dotted_groups (dropWhile is_digit cs))"
      by (rule prefix_prefix)
    with True show ?thesis by (simp add: x dg)
  next
    case False
    with rest have eq: "e = takeWhile is_digit cs" and pv: "prefix v (dropWhile is_digit cs)"
      by simp_all
    from pv have "prefix v (dotted_groups (dropWhile is_digit cs))" by (rule star_step.IH)
    then show ?thesis by (simp add: x dg eq [symmetric])
  qed
qed

lemma numeric_prefix_longest:
  assumes "numeric_prefix s = Some g" "u \<in> lang dotted_number" "prefix u s"
  shows "prefix u g"
proof -
  let ?G = "lang (Then (Cls (\<lambda>c. c = CHR ''.'')) (rx_plus (Cls is_digit)))"
  from assms(1) have g: "g = takeWhile is_digit s @ dotted_groups (dropWhile is_digit s)"
    by (auto simp: numeric_prefix_def split: if_splits)
  from assms(2) obtain d w where
    u: "u = d @ w" and d: "d \<in> lang (rx_plus (Cls is_digit))" and w: "w \<in> star ?G"
    unfolding dotted_number_def by auto
  from d have dd: "list_all is_digit d" by (simp add: lang_plus_Cls_iff)
  have w0: "w = [] \<or> hd w = CHR ''.''" using w by (rule star_groups_start)
  from assms(3) have p: "prefix (d @ w) s" by (simp add: u)
  from digits_then_rest [OF dd p w0] have
    pd: "prefix d (takeWhile is_digit s)"
    and rest: "w \<noteq> [] \<longrightarrow> d = takeWhile is_digit s \<and> prefix w (dropWhile is_digit s)"
    by simp_all
  show ?thesis
  proof (cases "w = []")
    case True
    from pd have "prefix d (takeWhile is_digit s @ dotted_groups (dropWhile is_digit s))"
      by (rule prefix_prefix)
    with True show ?thesis by (simp add: u g)
  next
    case False
    with rest have eq: "d = takeWhile is_digit s" and pw: "prefix w (dropWhile is_digit s)"
      by simp_all
    from w pw have "prefix w (dotted_groups (dropWhile is_digit s))"
      by (rule star_groups_prefix)
    then show ?thesis by (simp add: u g eq [symmetric])
  qed
qed

end
